theory Spec2Isabelle
  imports Complex_Main "HOL-Library.AList"
begin

section \<open>Data model (api/schemas.py)\<close>

datatype ResourceType = COMPUTE | NETWORK | DATABASE | STORAGE | LOAD_BALANCER | KUBERNETES

datatype ResourceStatus = PENDING | CREATING | ACTIVE | FAILED | DELETING | DELETED

text \<open>
  Both enums mix in \<open>str\<close>: a member compares equal to its value, and \<open>lower()\<close> and
  string formatting work on the value.
\<close>

fun ResourceType_value :: "ResourceType \<Rightarrow> string" where
  "ResourceType_value COMPUTE = ''compute''"
| "ResourceType_value NETWORK = ''network''"
| "ResourceType_value DATABASE = ''database''"
| "ResourceType_value STORAGE = ''storage''"
| "ResourceType_value LOAD_BALANCER = ''load_balancer''"
| "ResourceType_value KUBERNETES = ''kubernetes''"

fun ResourceStatus_value :: "ResourceStatus \<Rightarrow> string" where
  "ResourceStatus_value PENDING = ''pending''"
| "ResourceStatus_value CREATING = ''creating''"
| "ResourceStatus_value ACTIVE = ''active''"
| "ResourceStatus_value FAILED = ''failed''"
| "ResourceStatus_value DELETING = ''deleting''"
| "ResourceStatus_value DELETED = ''deleted''"

text \<open>
  The values of a specification dictionary (\<open>Dict[str, Any]\<close>): the analyzer stores
  strings, integers, booleans and the list of security rules (each a dictionary with the
  keys protocol, port and source).
\<close>

datatype spec_value =
    VStr string
  | VInt int
  | VBool bool
  | VRules "(string \<times> int \<times> string) list"

text \<open>
  \<open>estimated_cost\<close> holds the two keys monthly and currency. The monthly cost is a
  Python float; it is kept here as the exact rational the expression denotes.
\<close>

record OCIResource =
  resource_type :: ResourceType
  name :: string
  description :: "string option"
  specifications :: "(string \<times> spec_value) list"
  estimated_cost :: "(rat \<times> string) option"
  dependencies :: "string list option"

text \<open>
  \<open>ProvisionedResource\<close>. Its \<open>details\<close> and \<open>access_info\<close> dictionaries hold the
  creation time and addresses drawn from fresh UUIDs; nothing stored in the request
  state or decided by the provisioning loop reads them, and they are left out.
\<close>

record ProvisionedResource =
  p_resource_type :: ResourceType
  p_name :: string
  p_ocid :: string
  p_status :: ResourceStatus

text \<open>
  The exceptions of the modelled code, each with its message or key. \<open>RecursionError\<close> is
  raised by the interpreter when a call would exceed its recursion limit.
\<close>

datatype error = ValueError string | KeyError string | RecursionError string

section \<open>Ordering by dependencies (core/provisioner.py)\<close>

text \<open>
  A Python \<open>dict\<close> keeps its keys in insertion order, and assigning to a key that is
  present keeps the key's position: this is \<^const>\<open>AList.update\<close> on an association list.
  A Python \<open>set\<close> of strings is kept as the list of its members in the order they were
  added; the order in which a \<open>for\<close> loop runs through it depends on the strings' hashes
  and is not fixed by the language, so it is a parameter \<open>set_iter\<close> of the model: a function
  from the members as added to the members as iterated.
\<close>

definition set_add :: "'a \<Rightarrow> 'a list \<Rightarrow> 'a list" where
  "set_add x xs = (if x \<in> set xs then xs else xs @ [x])"

text \<open>\<open>resource_map = {resource.name: resource for resource in resources}\<close>\<close>

definition resource_map_of :: "OCIResource list \<Rightarrow> (string \<times> OCIResource) list" where
  "resource_map_of resources = foldl (\<lambda>m r. AList.update (name r) r m) [] resources"

text \<open>\<open>dependency_graph = {resource.name: set() for resource in resources}\<close>\<close>

definition empty_graph :: "OCIResource list \<Rightarrow> (string \<times> string list) list" where
  "empty_graph resources = foldl (\<lambda>g r. AList.update (name r) [] g) [] resources"

text \<open>
  The inner loop over \<open>resource.dependencies\<close>: a dependency that names no resource of
  the batch is skipped. \<open>dependency_graph[resource.name]\<close> raises \<open>KeyError\<close> on a
  missing key.
\<close>

fun add_dependencies ::
  "(string \<times> OCIResource) list \<Rightarrow> string \<Rightarrow> string list \<Rightarrow> (string \<times> string list) list
   \<Rightarrow> error + (string \<times> string list) list" where
  "add_dependencies rm n [] g = Inr g"
| "add_dependencies rm n (d # ds) g =
     (if d \<in> fst ` set rm then
        (case map_of g n of
           None \<Rightarrow> Inl (KeyError n)
         | Some s \<Rightarrow> add_dependencies rm n ds (AList.update n (set_add d s) g))
      else add_dependencies rm n ds g)"

text \<open>
  The outer loop \<open>for resource in resources: if resource.dependencies: ...\<close>; \<open>None\<close>
  and the empty list are both falsy.
\<close>

fun build_graph ::
  "(string \<times> OCIResource) list \<Rightarrow> OCIResource list \<Rightarrow> (string \<times> string list) list
   \<Rightarrow> error + (string \<times> string list) list" where
  "build_graph rm [] g = Inr g"
| "build_graph rm (r # rs) g =
     (case dependencies r of
        None \<Rightarrow> build_graph rm rs g
      | Some ds \<Rightarrow>
          (case add_dependencies rm (name r) ds g of
             Inl e \<Rightarrow> Inl e
           | Inr g' \<Rightarrow> build_graph rm rs g'))"

text \<open>
  The nested function \<open>visit\<close>. It works on three variables of the enclosing call:
  \<open>visited\<close>, \<open>order\<close> and \<open>temp_visited\<close>. The first two are threaded through as a pair.
  \<open>temp_visited\<close> receives the name on entry and loses it again before a normal return, so
  at every call it holds exactly the names of the calls in progress; it is passed down as
  the argument \<open>temp\<close>. An exception leaves the whole sort, so it is the \<open>Inl\<close> result
  of every enclosing call. \<open>visit_deps\<close> is the loop \<open>for dependency in
  dependency_graph[name]: visit(dependency)\<close> over the members as iterated.

  \<open>visit\<close> calls itself once for every dependency edge it follows, and every call in
  progress holds a frame of the interpreter's stack. The code never raises the
  interpreter's recursion limit (1000 frames unless changed), so a call of \<open>visit\<close> nested
  too deep raises \<open>RecursionError\<close> before its body runs. The argument \<open>depth\<close> is the
  number of further nested calls of \<open>visit\<close> that the limit still allows: the outermost
  call receives what the stack below the sort leaves of the limit, and every nested call
  one less.
\<close>

definition recursion_message :: string where
  "recursion_message = ''maximum recursion depth exceeded''"

function
  visit :: "(string list \<Rightarrow> string list) \<Rightarrow> (string \<times> string list) list \<Rightarrow> nat \<Rightarrow> string set
            \<Rightarrow> string \<Rightarrow> string set \<times> string list \<Rightarrow> error + string set \<times> string list"
and
  visit_deps :: "(string list \<Rightarrow> string list) \<Rightarrow> (string \<times> string list) list \<Rightarrow> nat
                 \<Rightarrow> string set \<Rightarrow> string list \<Rightarrow> string set \<times> string list
                 \<Rightarrow> error + string set \<times> string list"
where
  "visit set_iter g depth temp n (visited, order) =
     (if depth = 0 then Inl (RecursionError recursion_message)
      else if n \<in> temp then Inl (ValueError (''Circular dependency detected for '' @ n))
      else if n \<in> visited then Inr (visited, order)
      else
        (case map_of g n of
           None \<Rightarrow> Inl (KeyError n)
         | Some s \<Rightarrow>
             (case visit_deps set_iter g (depth - 1) (insert n temp) (set_iter s)
                     (visited, order) of
                Inl e \<Rightarrow> Inl e
              | Inr (visited', order') \<Rightarrow> Inr (insert n visited', order' @ [n]))))"
| "visit_deps set_iter g depth temp [] st = Inr st"
| "visit_deps set_iter g depth temp (d # ds) st =
     (case visit set_iter g depth temp d st of
        Inl e \<Rightarrow> Inl e
      | Inr st' \<Rightarrow> visit_deps set_iter g depth temp ds st')"
  by pat_completeness auto

termination
  by (relation "inv_image (less_than <*lex*> less_than)
        (\<lambda>x. case x of
            Inl (si, g, depth, temp, n, st) \<Rightarrow> (depth, 0)
          | Inr (si, g, depth, temp, ds, st) \<Rightarrow> (depth, Suc (length ds)))")
     auto

text \<open>
  The loop \<open>for name in dependency_graph: if name not in visited: visit(name)\<close>. Every
  call of \<open>visit\<close> made here starts from the same stack, with \<open>depth\<close> calls left.
\<close>

fun visit_all ::
  "(string list \<Rightarrow> string list) \<Rightarrow> (string \<times> string list) list \<Rightarrow> nat \<Rightarrow> string list
   \<Rightarrow> string set \<times> string list \<Rightarrow> error + string set \<times> string list" where
  "visit_all set_iter g depth [] st = Inr st"
| "visit_all set_iter g depth (n # ns) (visited, order) =
     (if n \<notin> visited then
        (case visit set_iter g depth {} n (visited, order) of
           Inl e \<Rightarrow> Inl e
         | Inr st' \<Rightarrow> visit_all set_iter g depth ns st')
      else visit_all set_iter g depth ns (visited, order))"

text \<open>\<open>[resource_map[name] for name in ...]\<close>\<close>

fun lookup_names :: "(string \<times> OCIResource) list \<Rightarrow> string list \<Rightarrow> error + OCIResource list" where
  "lookup_names rm [] = Inr []"
| "lookup_names rm (n # ns) =
     (case map_of rm n of
        None \<Rightarrow> Inl (KeyError n)
      | Some r \<Rightarrow>
          (case lookup_names rm ns of
             Inl e \<Rightarrow> Inl e
           | Inr rs \<Rightarrow> Inr (r # rs)))"

text \<open>
  \<open>_sort_resources_by_dependencies\<close>; \<open>depth\<close> is the number of nested calls of \<open>visit\<close>
  that the recursion limit allows at the point of the call.
\<close>

definition sort_resources_by_dependencies ::
  "(string list \<Rightarrow> string list) \<Rightarrow> nat \<Rightarrow> OCIResource list \<Rightarrow> error + OCIResource list" where
  "sort_resources_by_dependencies set_iter depth resources =
     (let resource_map = resource_map_of resources in
      case build_graph resource_map resources (empty_graph resources) of
        Inl e \<Rightarrow> Inl e
      | Inr dependency_graph \<Rightarrow>
          (case visit_all set_iter dependency_graph depth (map fst dependency_graph) ({}, []) of
             Inl e \<Rightarrow> Inl e
           | Inr (visited, order) \<Rightarrow> lookup_names resource_map (rev order)))"

section \<open>Provisioning (core/provisioner.py)\<close>

text \<open>
  An entry of the \<open>resources\<close> list of a request: the dictionary with the keys name, type,
  status and ocid that the loop appends after a success, or the one with the keys name,
  type, status and error that it appends after a failure. An absent key is \<open>None\<close>.
\<close>

record outcome =
  o_name :: string
  o_type :: ResourceType
  o_status :: string
  o_ocid :: "string option"
  o_error :: "string option"

text \<open>
  The value stored under a request identifier. \<open>progress\<close> is a Python float, assigned
  \<open>0.0\<close>, \<open>(i / total_resources) * 100\<close> and \<open>100.0\<close>; the model keeps the exact rational.
  Floating-point division and multiplication round monotonically, so the order between
  two of these values is the order of the rationals, and \<open>0.0\<close> and \<open>100.0\<close> are exact.
\<close>

record request_state =
  status :: string
  started_at :: string
  estimated_completion :: string
  resources :: "outcome list"
  progress :: rat

text \<open>
  What a call reads from outside the program: the clock (\<open>datetime.now().isoformat()\<close>,
  and the same fifteen minutes later), the hexadecimal form of the UUID drawn for the
  resource at each position of the loop, the iteration order of string sets, the number
  of nested calls of \<open>visit\<close> that the interpreter's recursion limit allows where the sort is
  called, and the text that an f-string gives for a member of \<open>ResourceType\<close>: the member's
  value up to Python 3.10, \<open>ResourceType.\<close> followed by the member's name from 3.11 on.
\<close>

record env =
  clock_now :: string
  clock_plus_15 :: string
  uuid4_hex :: "nat \<Rightarrow> string"
  hash_order :: "string list \<Rightarrow> string list"
  recursion_limit :: nat
  format_enum :: "ResourceType \<Rightarrow> string"

text \<open>
  The object state of \<open>ResourceProvisioner\<close> is the dictionary \<open>provisioning_requests\<close>.
  \<open>progress_writes\<close> is a history variable, not a field of the class: it records every
  assignment to a request's \<open>progress\<close> key, oldest first, so that the sequence of values
  written can be stated. The constructor also builds an \<open>OCIClient\<close>, which is outside the
  modelled code and taken to succeed.
\<close>

record provisioner =
  provisioning_requests :: "string \<rightharpoonup> request_state"
  progress_writes :: "(string \<times> rat) list"

definition ResourceProvisioner_init :: provisioner where
  "ResourceProvisioner_init = \<lparr>provisioning_requests = Map.empty, progress_writes = []\<rparr>"

text \<open>
  \<open>str(e)\<close>: the message of a \<open>ValueError\<close> or a \<open>RecursionError\<close>, the quoted key of a
  \<open>KeyError\<close>.
\<close>

fun error_str :: "error \<Rightarrow> string" where
  "error_str (ValueError m) = m"
| "error_str (KeyError k) = [CHR 0x27] @ k @ [CHR 0x27]"
| "error_str (RecursionError m) = m"

text \<open>
  The five handlers. Each returns the resource's type and name, the generated identifier
  and the status \<open>ACTIVE\<close>; they differ in the details left out of the model. None
  of them raises: they read \<open>specifications\<close> with \<open>get\<close> and a default.
\<close>

definition provision_compute_instance :: "OCIResource \<Rightarrow> string \<Rightarrow> ProvisionedResource" where
  "provision_compute_instance resource ocid =
     \<lparr>p_resource_type = resource_type resource, p_name = name resource, p_ocid = ocid,
      p_status = ACTIVE\<rparr>"

definition provision_network :: "OCIResource \<Rightarrow> string \<Rightarrow> ProvisionedResource" where
  "provision_network resource ocid =
     \<lparr>p_resource_type = resource_type resource, p_name = name resource, p_ocid = ocid,
      p_status = ACTIVE\<rparr>"

definition provision_database :: "OCIResource \<Rightarrow> string \<Rightarrow> ProvisionedResource" where
  "provision_database resource ocid =
     \<lparr>p_resource_type = resource_type resource, p_name = name resource, p_ocid = ocid,
      p_status = ACTIVE\<rparr>"

definition provision_storage :: "OCIResource \<Rightarrow> string \<Rightarrow> ProvisionedResource" where
  "provision_storage resource ocid =
     \<lparr>p_resource_type = resource_type resource, p_name = name resource, p_ocid = ocid,
      p_status = ACTIVE\<rparr>"

definition provision_load_balancer :: "OCIResource \<Rightarrow> string \<Rightarrow> ProvisionedResource" where
  "provision_load_balancer resource ocid =
     \<lparr>p_resource_type = resource_type resource, p_name = name resource, p_ocid = ocid,
      p_status = ACTIVE\<rparr>"

text \<open>
  The two texts that an f-string can give for a member of \<open>ResourceType\<close>, by the version
  of the interpreter.
\<close>

fun ResourceType_name :: "ResourceType \<Rightarrow> string" where
  "ResourceType_name COMPUTE = ''COMPUTE''"
| "ResourceType_name NETWORK = ''NETWORK''"
| "ResourceType_name DATABASE = ''DATABASE''"
| "ResourceType_name STORAGE = ''STORAGE''"
| "ResourceType_name LOAD_BALANCER = ''LOAD_BALANCER''"
| "ResourceType_name KUBERNETES = ''KUBERNETES''"

definition format_enum_310 :: "ResourceType \<Rightarrow> string" where
  "format_enum_310 t = ResourceType_value t"

definition format_enum_311 :: "ResourceType \<Rightarrow> string" where
  "format_enum_311 t = ''ResourceType.'' @ ResourceType_name t"

text \<open>
  \<open>_provision_resource\<close>; \<open>hex\<close> is \<open>uuid.uuid4().hex\<close> and \<open>fmt\<close> the f-string text of
  an enum member. The type's value is lower case already, so \<open>lower()\<close> returns it (a
  method of \<open>str\<close>, which works on the value whatever the version). The message of the
  \<open>ValueError\<close> formats the member with an f-string.
\<close>

definition unsupported_message :: "(ResourceType \<Rightarrow> string) \<Rightarrow> ResourceType \<Rightarrow> string" where
  "unsupported_message fmt t = ''Unsupported resource type: '' @ fmt t"

definition provision_resource ::
  "(ResourceType \<Rightarrow> string) \<Rightarrow> string \<Rightarrow> OCIResource \<Rightarrow> error + ProvisionedResource" where
  "provision_resource fmt hex resource =
     (let ocid = ''ocid1.'' @ ResourceType_value (resource_type resource) @ ''.oc1..aaaaaaaa'' @ hex
      in if resource_type resource = COMPUTE then Inr (provision_compute_instance resource ocid)
         else if resource_type resource = NETWORK then Inr (provision_network resource ocid)
         else if resource_type resource = DATABASE then Inr (provision_database resource ocid)
         else if resource_type resource = STORAGE then Inr (provision_storage resource ocid)
         else if resource_type resource = LOAD_BALANCER
           then Inr (provision_load_balancer resource ocid)
         else Inl (ValueError (unsupported_message fmt (resource_type resource))))"

text \<open>
  Assignments through \<open>self.provisioning_requests[request_id]\<close>. The subscript raises
  \<open>KeyError\<close> on a missing identifier; \<open>provision_resources\<close> creates the entry before
  the first of them, so that branch is never taken there, and the model leaves the
  dictionary as it is.
\<close>

definition update_request ::
  "string \<Rightarrow> (request_state \<Rightarrow> request_state) \<Rightarrow> provisioner \<Rightarrow> provisioner" where
  "update_request request_id f self =
     (case provisioning_requests self request_id of
        None \<Rightarrow> self
      | Some st \<Rightarrow> self\<lparr>provisioning_requests := (provisioning_requests self)(request_id \<mapsto> f st)\<rparr>)"

definition set_progress :: "string \<Rightarrow> rat \<Rightarrow> provisioner \<Rightarrow> provisioner" where
  "set_progress request_id v self =
     (update_request request_id (\<lambda>st. st\<lparr>progress := v\<rparr>) self)
       \<lparr>progress_writes := progress_writes self @ [(request_id, v)]\<rparr>"

definition set_status :: "string \<Rightarrow> string \<Rightarrow> provisioner \<Rightarrow> provisioner" where
  "set_status request_id v self = update_request request_id (\<lambda>st. st\<lparr>status := v\<rparr>) self"

definition append_outcome :: "string \<Rightarrow> outcome \<Rightarrow> provisioner \<Rightarrow> provisioner" where
  "append_outcome request_id oc self =
     update_request request_id (\<lambda>st. st\<lparr>resources := resources st @ [oc]\<rparr>) self"

text \<open>The two dictionaries appended to \<open>resources\<close>: in the \<open>try\<close> body and in the handler.\<close>

definition success_entry :: "ProvisionedResource \<Rightarrow> outcome" where
  "success_entry provisioned =
     \<lparr>o_name = p_name provisioned, o_type = p_resource_type provisioned,
      o_status = ResourceStatus_value (p_status provisioned),
      o_ocid = Some (p_ocid provisioned), o_error = None\<rparr>"

definition failure_entry :: "OCIResource \<Rightarrow> error \<Rightarrow> outcome" where
  "failure_entry resource e =
     \<lparr>o_name = name resource, o_type = resource_type resource, o_status = ''failed'',
      o_ocid = None, o_error = Some (error_str e)\<rparr>"

text \<open>
  The loop \<open>for i, resource in enumerate(sorted_resources)\<close> with its \<open>try\<close>/\<open>except\<close>:
  the progress is written first, then the resource is provisioned; a success is appended
  to the list to return and to the stored outcomes, a failure to the stored outcomes only,
  and the loop goes on either way.
\<close>

fun provision_loop ::
  "env \<Rightarrow> string \<Rightarrow> nat \<Rightarrow> nat \<Rightarrow> OCIResource list \<Rightarrow> ProvisionedResource list \<times> provisioner
   \<Rightarrow> ProvisionedResource list \<times> provisioner" where
  "provision_loop e request_id total_resources i [] acc = acc"
| "provision_loop e request_id total_resources i (resource # rest) (provisioned_resources, self) =
     (let self1 = set_progress request_id (of_nat i / of_nat total_resources * 100) self
      in case provision_resource (format_enum e) (uuid4_hex e i) resource of
           Inr provisioned \<Rightarrow>
             provision_loop e request_id total_resources (Suc i) rest
               (provisioned_resources @ [provisioned],
                append_outcome request_id (success_entry provisioned) self1)
         | Inl err \<Rightarrow>
             provision_loop e request_id total_resources (Suc i) rest
               (provisioned_resources,
                append_outcome request_id (failure_entry resource err) self1))"

text \<open>
  \<open>provision_resources\<close> returns the list of provisioned resources or raises; either way
  the object may have changed, so the model returns the result together with the object.
\<close>

definition new_request :: "env \<Rightarrow> request_state" where
  "new_request e =
     \<lparr>status = ''in_progress'', started_at = clock_now e,
      estimated_completion = clock_plus_15 e, resources = [], progress = 0\<rparr>"

definition init_request :: "env \<Rightarrow> string \<Rightarrow> provisioner \<Rightarrow> provisioner" where
  "init_request e request_id self =
     (if provisioning_requests self request_id = None then
        self\<lparr>provisioning_requests := (provisioning_requests self)(request_id \<mapsto> new_request e),
             progress_writes := progress_writes self @ [(request_id, 0)]\<rparr>
      else self)"

definition provision_resources ::
  "env \<Rightarrow> string \<Rightarrow> OCIResource list \<Rightarrow> provisioner
   \<Rightarrow> (error + ProvisionedResource list) \<times> provisioner" where
  "provision_resources e request_id rs self =
     (let self1 = init_request e request_id self
      in case sort_resources_by_dependencies (hash_order e) (recursion_limit e) rs of
           Inl err \<Rightarrow> (Inl err, self1)
         | Inr sorted_resources \<Rightarrow>
             (case provision_loop e request_id (length sorted_resources) 0 sorted_resources
                     ([], self1) of
                (provisioned_resources, self2) \<Rightarrow>
                  (Inr provisioned_resources,
                   set_progress request_id 100 (set_status request_id ''completed'' self2))))"

text \<open>
  \<open>get_provisioning_status\<close>: the stored dictionary with the identifier added, or the
  not-found dictionary. Keys absent from the returned dictionary are \<open>None\<close>.
\<close>

record status_response =
  s_request_id :: string
  s_status :: string
  s_message :: "string option"
  s_progress :: rat
  s_resources :: "outcome list"
  s_started_at :: "string option"
  s_estimated_completion :: "string option"

definition get_provisioning_status :: "string \<Rightarrow> provisioner \<Rightarrow> status_response" where
  "get_provisioning_status request_id self =
     (case provisioning_requests self request_id of
        None \<Rightarrow>
          \<lparr>s_request_id = request_id, s_status = ''not_found'',
           s_message = Some (''No provisioning request found with ID '' @ request_id),
           s_progress = 0, s_resources = [], s_started_at = None,
           s_estimated_completion = None\<rparr>
      | Some st \<Rightarrow>
          \<lparr>s_request_id = request_id, s_status = status st, s_message = None,
           s_progress = progress st, s_resources = resources st,
           s_started_at = Some (started_at st),
           s_estimated_completion = Some (estimated_completion st)\<rparr>)"

section \<open>The exposed operations (api/router.py)\<close>

record ProvisioningConfirmation =
  c_request_id :: string
  confirmed_resources :: "OCIResource list"
  user_id :: "string option"
  priority :: "string option"

record ProvisioningResponse =
  r_request_id :: string
  r_status :: string
  provisioned_resources :: "ProvisionedResource list"
  r_message :: string

datatype HTTPException = HTTPException nat string

text \<open>
  \<open>POST /provision\<close>: the handler builds a \<open>ResourceProvisioner\<close> of its own, runs the
  provisioning on it and returns the response; the object is local to the call. Any
  exception becomes the HTTP error 500.
\<close>

definition api_provision_resources ::
  "env \<Rightarrow> ProvisioningConfirmation \<Rightarrow> HTTPException + ProvisioningResponse" where
  "api_provision_resources e confirmation =
     (let provisioner = ResourceProvisioner_init
      in case fst (provision_resources e (c_request_id confirmation)
                     (confirmed_resources confirmation) provisioner) of
           Inl err \<Rightarrow> Inl (HTTPException 500 (''Error provisioning resources: '' @ error_str err))
         | Inr result \<Rightarrow>
             Inr \<lparr>r_request_id = c_request_id confirmation, r_status = ''success'',
                  provisioned_resources = result,
                  r_message = ''Resources provisioned successfully''\<rparr>)"

text \<open>
  \<open>GET /status/{request_id}\<close>: the handler again builds a \<open>ResourceProvisioner\<close> of its
  own and asks it for the status.
\<close>

definition api_get_provisioning_status :: "string \<Rightarrow> HTTPException + status_response" where
  "api_get_provisioning_status request_id =
     (let provisioner = ResourceProvisioner_init
      in Inr (get_provisioning_status request_id provisioner))"

section \<open>Vocabulary of the properties\<close>

definition edges :: "(string \<times> string list) list \<Rightarrow> (string \<times> string) set" where
  "edges g = {(n, d). \<exists>s. map_of g n = Some s \<and> d \<in> set s}"

definition wf_graph :: "(string \<times> string list) list \<Rightarrow> bool" where
  "wf_graph g = (\<forall>n s. map_of g n = Some s \<longrightarrow> set s \<subseteq> fst ` set g)"

definition cycle_error :: "(string \<times> string list) list \<Rightarrow> error \<Rightarrow> bool" where
  "cycle_error g e = (\<exists>m. e = ValueError (''Circular dependency detected for '' @ m) \<and> (m, m) \<in> (edges g)\<^sup>+)"

definition topo :: "(string \<times> string list) list \<Rightarrow> string list \<Rightarrow> bool" where
  "topo g ord = (\<forall>pre n post s. ord = pre @ n # post \<longrightarrow> map_of g n = Some s \<longrightarrow> set s \<subseteq> set pre)"

definition deps_of :: "OCIResource \<Rightarrow> string list" where
  "deps_of r = (case dependencies r of None \<Rightarrow> [] | Some ds \<Rightarrow> ds)"

definition in_batch_edges :: "OCIResource list \<Rightarrow> (string \<times> string) set" where
  "in_batch_edges rs =
     {(n, d). \<exists>r\<in>set rs. n = name r \<and> d \<in> set (deps_of r) \<and> d \<in> name ` set rs}"

definition outcome_at :: "env \<Rightarrow> nat \<Rightarrow> OCIResource \<Rightarrow> outcome" where
  "outcome_at e i r =
     (case provision_resource (format_enum e) (uuid4_hex e i) r of
        Inr p \<Rightarrow> success_entry p
      | Inl err \<Rightarrow> failure_entry r err)"

fun loop_outcomes :: "env \<Rightarrow> nat \<Rightarrow> OCIResource list \<Rightarrow> outcome list" where
  "loop_outcomes e i [] = []"
| "loop_outcomes e i (r # rs) = outcome_at e i r # loop_outcomes e (Suc i) rs"

fun loop_returned :: "env \<Rightarrow> nat \<Rightarrow> OCIResource list \<Rightarrow> ProvisionedResource list" where
  "loop_returned e i [] = []"
| "loop_returned e i (r # rs) =
     (case provision_resource (format_enum e) (uuid4_hex e i) r of
        Inr p \<Rightarrow> p # loop_returned e (Suc i) rs
      | Inl err \<Rightarrow> loop_returned e (Suc i) rs)"

definition progress_at :: "nat \<Rightarrow> nat \<Rightarrow> rat" where
  "progress_at tot i = of_nat i / of_nat tot * 100"

definition returned_at :: "env \<Rightarrow> nat \<Rightarrow> OCIResource \<Rightarrow> ProvisionedResource list" where
  "returned_at e i r =
     (case provision_resource (format_enum e) (uuid4_hex e i) r of Inr p \<Rightarrow> [p] | Inl err \<Rightarrow> [])"

definition prior_outcomes :: "provisioner \<Rightarrow> string \<Rightarrow> outcome list" where
  "prior_outcomes self rid =
     (case provisioning_requests self rid of None \<Rightarrow> [] | Some st \<Rightarrow> resources st)"

definition example_env :: env where
  "example_env =
     \<lparr>clock_now = ''2024-01-01T00:00:00'', clock_plus_15 = ''2024-01-01T00:15:00'',
      uuid4_hex = (\<lambda>i. ''0123456789abcdef0123456789abcdef''),
      hash_order = (\<lambda>xs. xs), recursion_limit = 900, format_enum = format_enum_311\<rparr>"

definition example_resource :: "ResourceType \<Rightarrow> string \<Rightarrow> string list \<Rightarrow> OCIResource" where
  "example_resource t n ds =
     \<lparr>resource_type = t, name = n, description = None, specifications = [],
      estimated_cost = None, dependencies = Some ds\<rparr>"

definition chain_batch :: "OCIResource list" where
  "chain_batch =
     [example_resource COMPUTE ''A'' [], example_resource COMPUTE ''B'' [''A''],
      example_resource COMPUTE ''C'' [''B''], example_resource COMPUTE ''D'' [''C'']]"

definition cyclic_batch :: "OCIResource list" where
  "cyclic_batch =
     [example_resource COMPUTE ''X'' [''Y''], example_resource COMPUTE ''Y'' [''X'']]"

definition mixed_batch :: "OCIResource list" where
  "mixed_batch =
     [example_resource COMPUTE ''WebServer'' [], example_resource KUBERNETES ''Cluster'' [],
      example_resource DATABASE ''WebsiteDB'' []]"

definition supported :: "OCIResource \<Rightarrow> bool" where
  "supported r = (resource_type r \<noteq> KUBERNETES)"

definition progress_values :: "provisioner \<Rightarrow> string \<Rightarrow> nat \<Rightarrow> rat list" where
  "progress_values self rid n =
     (if provisioning_requests self rid = None then [0] else [])
       @ map (progress_at n) [0..<n] @ [100]"

section \<open>Properties\<close>

lemma card_keys_insert:
  assumes "n \<in> fst ` set g" and "n \<notin> temp" and "card (fst ` set g - temp) < depth"
  shows "card (fst ` set g - insert n temp) < depth - 1"
proof -
  have fin: "finite (fst ` set g - temp)" by simp
  have mem: "n \<in> fst ` set g - temp" using assms(1,2) by simp
  have "fst ` set g - insert n temp = (fst ` set g - temp) - {n}" by auto
  then have "card (fst ` set g - insert n temp) = card (fst ` set g - temp) - 1"
    using fin mem by simp
  moreover have "0 < card (fst ` set g - temp)"
    using fin mem by (auto simp: card_gt_0_iff)
  ultimately show ?thesis using assms(3) by linarith
qed

lemma visit_error:
  "visit si g depth temp n st = Inl e \<Longrightarrow> wf_graph g \<Longrightarrow> (\<forall>xs. set (si xs) \<subseteq> set xs)
     \<Longrightarrow> n \<in> fst ` set g \<Longrightarrow> (\<forall>t\<in>temp. (t, n) \<in> (edges g)\<^sup>+)
     \<Longrightarrow> card (fst ` set g - temp) < depth \<Longrightarrow> cycle_error g e"
  "visit_deps si g depth temp ds st = Inl e \<Longrightarrow> wf_graph g \<Longrightarrow> (\<forall>xs. set (si xs) \<subseteq> set xs)
     \<Longrightarrow> set ds \<subseteq> fst ` set g \<Longrightarrow> (\<forall>t\<in>temp. \<forall>d\<in>set ds. (t, d) \<in> (edges g)\<^sup>+)
     \<Longrightarrow> card (fst ` set g - temp) < depth \<Longrightarrow> cycle_error g e"
proof (induction si g depth temp n st and si g depth temp ds st arbitrary: e and e
       rule: visit_visit_deps.induct)
  case (1 si g depth temp n visited order')
  have d0: "depth \<noteq> 0" using "1.prems"(6) by simp
  show ?case
  proof (cases "n \<in> temp")
    case True
    then have "(n, n) \<in> (edges g)\<^sup>+" using "1.prems"(5) by blast
    moreover have "e = ValueError (''Circular dependency detected for '' @ n)"
      using "1.prems"(1) True d0 by simp
    ultimately show ?thesis unfolding cycle_error_def by blast
  next
    case nt: False
    show ?thesis
    proof (cases "n \<in> visited")
      case True
      then show ?thesis using "1.prems"(1) nt d0 by simp
    next
      case nv: False
      from "1.prems"(4) obtain s where s: "map_of g n = Some s"
        by (metis domD dom_map_of_conv_image_fst)
      have err: "visit_deps si g (depth - 1) (insert n temp) (si s) (visited, order') = Inl e"
        using "1.prems"(1) nt nv s d0 by (auto split: sum.splits)
      have sub: "set (si s) \<subseteq> fst ` set g"
        using s "1.prems"(2,3) unfolding wf_graph_def by blast
      have step: "\<forall>d\<in>set (si s). (n, d) \<in> edges g"
        using s "1.prems"(3) unfolding edges_def by auto
      have tr: "\<forall>t\<in>insert n temp. \<forall>d\<in>set (si s). (t, d) \<in> (edges g)\<^sup>+"
        using step "1.prems"(5) by (auto intro: trancl.trancl_into_trancl)
      have cd: "card (fst ` set g - insert n temp) < depth - 1"
        using "1.prems"(4) nt "1.prems"(6) by (rule card_keys_insert)
      show ?thesis
        using "1.IH" [OF d0 nt nv s err "1.prems"(2,3) sub tr cd] .
    qed
  qed
next
  case (2 si g depth temp st)
  then show ?case by simp
next
  case (3 si g depth temp d ds st)
  show ?case
  proof (cases "visit si g depth temp d st")
    case (Inl e')
    then have "e' = e" using "3.prems"(1) by simp
    then show ?thesis
      using "3.IH"(1) [of e] Inl "3.prems" by auto
  next
    case (Inr st')
    then have "visit_deps si g depth temp ds st' = Inl e" using "3.prems"(1) by simp
    then show ?thesis
      using "3.IH"(2) [OF Inr] "3.prems" by auto
  qed
qed

lemma topo_Nil: "topo g []"
  by (simp add: topo_def)

lemma topo_snoc:
  assumes "topo g ord" and "\<And>s. map_of g n = Some s \<Longrightarrow> set s \<subseteq> set ord"
  shows "topo g (ord @ [n])"
  unfolding topo_def
proof (intro allI impI)
  fix pre m post s
  assume eq: "ord @ [n] = pre @ m # post" and m: "map_of g m = Some s"
  show "set s \<subseteq> set pre"
  proof (cases post rule: rev_cases)
    case Nil
    then have "pre = ord" "m = n" using eq by auto
    then show ?thesis using assms(2) m by simp
  next
    case (snoc post' x)
    then have "ord = pre @ m # post'" using eq by simp
    then show ?thesis using assms(1) m unfolding topo_def by blast
  qed
qed

lemma visit_ok:
  "visit si g depth temp n st = Inr st' \<Longrightarrow> (\<forall>xs. set xs \<subseteq> set (si xs)) \<Longrightarrow> fst st = set (snd st)
     \<Longrightarrow> topo g (snd st)
     \<Longrightarrow> fst st' = set (snd st') \<and> topo g (snd st') \<and> n \<in> fst st' \<and> fst st \<subseteq> fst st'"
  "visit_deps si g depth temp ds st = Inr st' \<Longrightarrow> (\<forall>xs. set xs \<subseteq> set (si xs)) \<Longrightarrow> fst st = set (snd st)
     \<Longrightarrow> topo g (snd st)
     \<Longrightarrow> fst st' = set (snd st') \<and> topo g (snd st') \<and> set ds \<subseteq> fst st' \<and> fst st \<subseteq> fst st'"
proof (induction si g depth temp n st and si g depth temp ds st arbitrary: st' and st'
       rule: visit_visit_deps.induct)
  case (1 si g depth temp n visited order')
  have d0: "depth \<noteq> 0" using "1.prems"(1) by (auto split: if_splits)
  have nt: "n \<notin> temp" using "1.prems"(1) by (auto split: if_splits)
  show ?case
  proof (cases "n \<in> visited")
    case True
    then have "st' = (visited, order')" using "1.prems"(1) nt d0 by simp
    then show ?thesis using "1.prems" True by simp
  next
    case nv: False
    obtain s where s: "map_of g n = Some s"
      using "1.prems"(1) nt nv d0 by (auto split: option.splits)
    obtain v' o' where
      sub: "visit_deps si g (depth - 1) (insert n temp) (si s) (visited, order') = Inr (v', o')"
      and st': "st' = (insert n v', o' @ [n])"
      using "1.prems"(1) nt nv s d0 by (auto split: sum.splits)
    have ih: "v' = set o' \<and> topo g o' \<and> set (si s) \<subseteq> v' \<and> visited \<subseteq> v'"
      using "1.IH" [OF d0 nt nv s sub "1.prems"(2)] "1.prems"(3,4) by auto
    have "set s \<subseteq> set o'" using ih "1.prems"(2) by blast
    then have "topo g (o' @ [n])"
      using ih s by (intro topo_snoc) auto
    then show ?thesis using ih st' by auto
  qed
next
  case (2 si g depth temp st)
  then show ?case by simp
next
  case (3 si g depth temp d ds st)
  obtain st1 where a: "visit si g depth temp d st = Inr st1"
    and b: "visit_deps si g depth temp ds st1 = Inr st'"
    using "3.prems"(1) by (auto split: sum.splits)
  have h1: "fst st1 = set (snd st1) \<and> topo g (snd st1) \<and> d \<in> fst st1 \<and> fst st \<subseteq> fst st1"
    using "3.IH"(1) [OF a "3.prems"(2,3,4)] .
  have h2: "fst st' = set (snd st') \<and> topo g (snd st') \<and> set ds \<subseteq> fst st' \<and> fst st1 \<subseteq> fst st'"
    using "3.IH"(2) [OF a b "3.prems"(2)] h1 by auto
  have "fst st \<subseteq> fst st'" using h1 h2 by (meson order_trans)
  moreover have "d \<in> fst st'" using h1 h2 by (meson subsetD)
  ultimately show ?case using h2 by auto
qed

lemma visit_all_ok:
  "visit_all si g depth ns st = Inr st' \<Longrightarrow> (\<forall>xs. set xs \<subseteq> set (si xs)) \<Longrightarrow> fst st = set (snd st)
     \<Longrightarrow> topo g (snd st)
     \<Longrightarrow> fst st' = set (snd st') \<and> topo g (snd st') \<and> set ns \<subseteq> fst st' \<and> fst st \<subseteq> fst st'"
proof (induction si g depth ns st arbitrary: st' rule: visit_all.induct)
  case (1 si g depth st)
  then show ?case by simp
next
  case (2 si g depth n ns visited order')
  show ?case
  proof (cases "n \<in> visited")
    case True
    then have "visit_all si g depth ns (visited, order') = Inr st'" using "2.prems"(1) by simp
    from "2.IH"(2) [OF _ this "2.prems"(2,3,4)] True show ?thesis by auto
  next
    case False
    then obtain st1 where a: "visit si g depth {} n (visited, order') = Inr st1"
      and b: "visit_all si g depth ns st1 = Inr st'"
      using "2.prems"(1) by (auto split: sum.splits)
    have h1: "fst st1 = set (snd st1) \<and> topo g (snd st1) \<and> n \<in> fst st1 \<and> visited \<subseteq> fst st1"
      using visit_ok(1) [OF a "2.prems"(2)] "2.prems"(3,4) by auto
    have h2: "fst st' = set (snd st') \<and> topo g (snd st') \<and> set ns \<subseteq> fst st' \<and> fst st1 \<subseteq> fst st'"
      using "2.IH"(1) [OF False a b "2.prems"(2)] h1 by auto
    have "visited \<subseteq> fst st'" using h1 h2 by (meson order_trans)
    moreover have "n \<in> fst st'" using h1 h2 by (meson subsetD)
    ultimately show ?thesis using h2 by auto
  qed
qed

lemma topo_edge:
  assumes "topo g ord" and "(a, b) \<in> edges g" and "a \<in> set ord"
  shows "b \<in> set ord \<and> length (takeWhile (\<lambda>x. x \<noteq> b) ord) < length (takeWhile (\<lambda>x. x \<noteq> a) ord)"
proof -
  obtain pre post where ord: "ord = pre @ a # post" and a: "a \<notin> set pre"
    using assms(3) by (auto dest: split_list_first)
  obtain s where s: "map_of g a = Some s" "b \<in> set s"
    using assms(2) unfolding edges_def by auto
  have b: "b \<in> set pre"
    using assms(1) ord s unfolding topo_def by blast
  have "\<And>x. x \<in> set pre \<Longrightarrow> x \<noteq> a"
    using a by auto
  then have la: "takeWhile (\<lambda>x. x \<noteq> a) ord = pre"
    using ord by simp
  obtain p1 p2 where pre: "pre = p1 @ b # p2" and nb: "b \<notin> set p1"
    using b by (auto dest: split_list_first)
  have "\<And>x. x \<in> set p1 \<Longrightarrow> x \<noteq> b"
    using nb by auto
  then have lb: "takeWhile (\<lambda>x. x \<noteq> b) ord = p1"
    using ord pre by simp
  show ?thesis using la lb pre b ord by auto
qed

lemma topo_trancl:
  assumes "topo g ord" and "(a, b) \<in> (edges g)\<^sup>+" and "a \<in> set ord"
  shows "b \<in> set ord \<and> length (takeWhile (\<lambda>x. x \<noteq> b) ord) < length (takeWhile (\<lambda>x. x \<noteq> a) ord)"
  using assms(2,3)
proof (induction rule: trancl_induct)
  case (base y)
  then show ?case using topo_edge [OF assms(1)] by blast
next
  case (step y z)
  then show ?case using topo_edge [OF assms(1) step.hyps(2)] by fastforce
qed

lemma topo_acyclic:
  assumes "topo g ord" and "fst ` set g \<subseteq> set ord"
  shows "(n, n) \<notin> (edges g)\<^sup>+"
proof
  assume c: "(n, n) \<in> (edges g)\<^sup>+"
  then obtain m where "(n, m) \<in> edges g"
    by (meson tranclD)
  then have "n \<in> fst ` set g"
    unfolding edges_def by (auto dest: map_of_SomeD intro: rev_image_eqI)
  then have "n \<in> set ord" using assms(2) by blast
  then show False using topo_trancl [OF assms(1) c] by simp
qed

lemma visit_all_error:
  "visit_all si g depth ns st = Inl e \<Longrightarrow> wf_graph g \<Longrightarrow> (\<forall>xs. set (si xs) \<subseteq> set xs)
     \<Longrightarrow> set ns \<subseteq> fst ` set g \<Longrightarrow> card (fst ` set g) < depth \<Longrightarrow> cycle_error g e"
proof (induction si g depth ns st rule: visit_all.induct)
  case (1 si g depth st)
  then show ?case by simp
next
  case (2 si g depth n ns visited order')
  show ?case
  proof (cases "n \<in> visited")
    case True
    then show ?thesis using 2 by simp
  next
    case False
    show ?thesis
    proof (cases "visit si g depth {} n (visited, order')")
      case (Inl e')
      then have "e' = e" using "2.prems"(1) False by simp
      then show ?thesis
        using visit_error(1) [OF Inl "2.prems"(2,3)] "2.prems"(4,5) by simp
    next
      case (Inr st1)
      then have "visit_all si g depth ns st1 = Inl e" using "2.prems"(1) False by simp
      then show ?thesis
        using "2.IH"(1) [OF False Inr] "2.prems" by simp
    qed
  qed
qed

lemma keys_resource_map_aux:
  "fst ` set (foldl (\<lambda>m r. AList.update (name r) r m) acc rs) = fst ` set acc \<union> name ` set rs"
  by (induction rs arbitrary: acc) (auto simp: AList.dom_update)

lemma keys_resource_map: "fst ` set (resource_map_of rs) = name ` set rs"
  by (simp add: resource_map_of_def keys_resource_map_aux)

lemma map_of_empty_graph_aux:
  "map_of (foldl (\<lambda>g r. AList.update (name r) [] g) acc rs) n =
     (if n \<in> name ` set rs then Some [] else map_of acc n)"
  by (induction rs arbitrary: acc) (auto simp: AList.update_conv')

lemma map_of_empty_graph:
  "map_of (empty_graph rs) n = (if n \<in> name ` set rs then Some [] else None)"
  by (simp add: empty_graph_def map_of_empty_graph_aux)

lemma add_dependencies_ok:
  "map_of g n = Some s \<Longrightarrow>
     \<exists>g' s'. add_dependencies rm n ds g = Inr g' \<and> map_of g' = (map_of g)(n \<mapsto> s')
            \<and> set s' = set s \<union> (set ds \<inter> fst ` set rm)"
proof (induction ds arbitrary: g s)
  case Nil
  then show ?case by (auto intro!: exI [of _ s])
next
  case (Cons d ds)
  show ?case
  proof (cases "d \<in> fst ` set rm")
    case False
    then show ?thesis using Cons.IH [OF Cons.prems] by auto
  next
    case True
    let ?g1 = "AList.update n (set_add d s) g"
    have "map_of ?g1 n = Some (set_add d s)" by (simp add: AList.update_conv')
    from Cons.IH [OF this] obtain g' s' where
      r: "add_dependencies rm n ds ?g1 = Inr g'" and m: "map_of g' = (map_of ?g1)(n \<mapsto> s')"
      and s': "set s' = set (set_add d s) \<union> (set ds \<inter> fst ` set rm)"
      by blast
    have "add_dependencies rm n (d # ds) g = Inr g'"
      using True Cons.prems r by simp
    moreover have "map_of g' = (map_of g)(n \<mapsto> s')"
      using m by (simp add: AList.update_conv')
    moreover have "set s' = set s \<union> (set (d # ds) \<inter> fst ` set rm)"
      using s' True by (auto simp: set_add_def)
    ultimately show ?thesis by blast
  qed
qed

lemma build_graph_ok:
  "name ` set rs \<subseteq> dom (map_of g) \<Longrightarrow>
     \<exists>g'. build_graph rm rs g = Inr g' \<and> dom (map_of g') = dom (map_of g)
        \<and> (\<forall>n s. map_of g n = Some s \<longrightarrow>
              (\<exists>s'. map_of g' n = Some s'
                 \<and> set s' = set s \<union> {d. \<exists>r\<in>set rs. name r = n \<and> d \<in> set (deps_of r) \<and> d \<in> fst ` set rm}))"
proof (induction rs arbitrary: g)
  case Nil
  then show ?case by simp
next
  case (Cons r rs)
  obtain s0 where s0: "map_of g (name r) = Some s0"
    using Cons.prems by auto
  from add_dependencies_ok [OF s0, of rm "deps_of r"] obtain g1 s1 where
    a: "add_dependencies rm (name r) (deps_of r) g = Inr g1"
    and m1: "map_of g1 = (map_of g)(name r \<mapsto> s1)"
    and s1: "set s1 = set s0 \<union> (set (deps_of r) \<inter> fst ` set rm)"
    by blast
  have step: "build_graph rm (r # rs) g = build_graph rm rs g1"
  proof (cases "dependencies r")
    case None
    then have "g1 = g" using a by (simp add: deps_of_def)
    then show ?thesis using None by simp
  next
    case (Some ds)
    then show ?thesis using a by (simp add: deps_of_def)
  qed
  have dom1: "dom (map_of g1) = dom (map_of g)"
    using m1 s0 by auto
  then have "name ` set rs \<subseteq> dom (map_of g1)"
    using Cons.prems by auto
  from Cons.IH [OF this] obtain g' where
    b: "build_graph rm rs g1 = Inr g'" and d': "dom (map_of g') = dom (map_of g1)"
    and v: "\<forall>n s. map_of g1 n = Some s \<longrightarrow>
              (\<exists>s'. map_of g' n = Some s'
                 \<and> set s' = set s \<union> {d. \<exists>r\<in>set rs. name r = n \<and> d \<in> set (deps_of r) \<and> d \<in> fst ` set rm})"
    by blast
  have "\<exists>s'. map_of g' n = Some s'
          \<and> set s' = set s \<union> {d. \<exists>r'\<in>set (r # rs). name r' = n \<and> d \<in> set (deps_of r') \<and> d \<in> fst ` set rm}"
    if n: "map_of g n = Some s" for n s
  proof (cases "n = name r")
    case True
    then have g1n: "map_of g1 n = Some s1" and ss: "s = s0" using m1 n s0 by auto
    from v g1n obtain s' where
      a': "map_of g' n = Some s'"
      and b': "set s' = set s1 \<union> {d. \<exists>r\<in>set rs. name r = n \<and> d \<in> set (deps_of r) \<and> d \<in> fst ` set rm}"
      by blast
    have "set s' = set s \<union> {d. \<exists>r'\<in>set (r # rs). name r' = n \<and> d \<in> set (deps_of r') \<and> d \<in> fst ` set rm}"
      unfolding b' s1 ss using True by auto
    then show ?thesis using a' by blast
  next
    case False
    then have g1n: "map_of g1 n = Some s" using m1 n by auto
    from v g1n obtain s' where
      a': "map_of g' n = Some s'"
      and b': "set s' = set s \<union> {d. \<exists>r\<in>set rs. name r = n \<and> d \<in> set (deps_of r) \<and> d \<in> fst ` set rm}"
      by blast
    have "set s' = set s \<union> {d. \<exists>r'\<in>set (r # rs). name r' = n \<and> d \<in> set (deps_of r') \<and> d \<in> fst ` set rm}"
      unfolding b' using False by auto
    then show ?thesis using a' by blast
  qed
  then show ?case using step b d' dom1 by auto
qed

lemma dependency_graph_ok:
  "\<exists>g. build_graph (resource_map_of rs) rs (empty_graph rs) = Inr g
      \<and> fst ` set g = name ` set rs \<and> edges g = in_batch_edges rs \<and> wf_graph g"
proof -
  have dom0: "dom (map_of (empty_graph rs)) = name ` set rs"
    by (auto simp: map_of_empty_graph dom_def)
  then have "name ` set rs \<subseteq> dom (map_of (empty_graph rs))" by simp
  from build_graph_ok [OF this, of "resource_map_of rs"] obtain g where
    b: "build_graph (resource_map_of rs) rs (empty_graph rs) = Inr g"
    and d: "dom (map_of g) = dom (map_of (empty_graph rs))"
    and v: "\<forall>n s. map_of (empty_graph rs) n = Some s \<longrightarrow>
              (\<exists>s'. map_of g n = Some s'
                 \<and> set s' = set s \<union> {d. \<exists>r\<in>set rs. name r = n \<and> d \<in> set (deps_of r)
                                        \<and> d \<in> fst ` set (resource_map_of rs)})"
    by blast
  have keys: "fst ` set g = name ` set rs"
    using d dom0 by (simp add: dom_map_of_conv_image_fst)
  have val: "set s = {d. \<exists>r\<in>set rs. name r = n \<and> d \<in> set (deps_of r) \<and> d \<in> name ` set rs}"
    if "map_of g n = Some s" for n s
  proof -
    have "n \<in> name ` set rs" using that d dom0 by auto
    then have "map_of (empty_graph rs) n = Some []" by (simp add: map_of_empty_graph)
    with v obtain s' where
      a': "map_of g n = Some s'"
      and b': "set s' = set [] \<union> {d. \<exists>r\<in>set rs. name r = n \<and> d \<in> set (deps_of r)
                                        \<and> d \<in> fst ` set (resource_map_of rs)}"
      by blast
    have "s' = s" using a' that by simp
    then show ?thesis using b' by (simp add: keys_resource_map)
  qed
  have e: "edges g = in_batch_edges rs"
  proof (rule set_eqI, clarify)
    fix a b
    show "(a, b) \<in> edges g \<longleftrightarrow> (a, b) \<in> in_batch_edges rs"
    proof
      assume "(a, b) \<in> edges g"
      then obtain s where s: "map_of g a = Some s" and bs: "b \<in> set s"
        unfolding edges_def by auto
      have "b \<in> {d. \<exists>r\<in>set rs. name r = a \<and> d \<in> set (deps_of r) \<and> d \<in> name ` set rs}"
        using bs unfolding val [OF s] .
      then show "(a, b) \<in> in_batch_edges rs"
        unfolding in_batch_edges_def by blast
    next
      assume ab: "(a, b) \<in> in_batch_edges rs"
      then have mem: "b \<in> {d. \<exists>r\<in>set rs. name r = a \<and> d \<in> set (deps_of r) \<and> d \<in> name ` set rs}"
        unfolding in_batch_edges_def by blast
      then have "a \<in> name ` set rs" by blast
      then have "a \<in> dom (map_of g)" using d dom0 by simp
      then obtain s where s: "map_of g a = Some s" by blast
      have "b \<in> set s" using mem unfolding val [OF s] .
      then show "(a, b) \<in> edges g" using s unfolding edges_def by blast
    qed
  qed
  have w: "wf_graph g"
    unfolding wf_graph_def
  proof (intro allI impI)
    fix n s
    assume ns: "map_of g n = Some s"
    show "set s \<subseteq> fst ` set g"
      unfolding val [OF ns] keys by blast
  qed
  show ?thesis using b keys e w by blast
qed

lemma sort_cyclic:
  assumes perm: "\<forall>xs. set (si xs) = set xs" and cyc: "(n, n) \<in> (in_batch_edges rs)\<^sup>+"
    and lim: "card (name ` set rs) < depth"
  shows "\<exists>m. sort_resources_by_dependencies si depth rs
               = Inl (ValueError (''Circular dependency detected for '' @ m))
             \<and> (m, m) \<in> (in_batch_edges rs)\<^sup>+"
proof -
  obtain g where b: "build_graph (resource_map_of rs) rs (empty_graph rs) = Inr g"
    and keys: "fst ` set g = name ` set rs" and e: "edges g = in_batch_edges rs" and w: "wf_graph g"
    using dependency_graph_ok by blast
  have p1: "\<forall>xs. set (si xs) \<subseteq> set xs" and p2: "\<forall>xs. set xs \<subseteq> set (si xs)"
    using perm by auto
  show ?thesis
  proof (cases "visit_all si g depth (map fst g) ({}, [])")
    case (Inl err)
    have "cycle_error g err"
      using visit_all_error [OF Inl w p1] lim keys by simp
    then obtain m where "err = ValueError (''Circular dependency detected for '' @ m)"
      and "(m, m) \<in> (edges g)\<^sup>+"
      unfolding cycle_error_def by blast
    then show ?thesis
      using b Inl e by (auto simp: sort_resources_by_dependencies_def)
  next
    case (Inr st)
    have h: "fst st = set (snd st) \<and> topo g (snd st) \<and> set (map fst g) \<subseteq> fst st \<and> fst ({}, []::string list) \<subseteq> fst st"
      by (rule visit_all_ok [OF Inr p2]) (simp_all add: topo_Nil)
    have t: "topo g (snd st)" using h by blast
    have "set (map fst g) \<subseteq> set (snd st)" using h by metis
    then have k: "fst ` set g \<subseteq> set (snd st)" by simp
    have "(n, n) \<notin> (edges g)\<^sup>+" using t k by (rule topo_acyclic)
    then show ?thesis using cyc e by simp
  qed
qed

lemma provision_loop_spec:
  "provisioning_requests self rid = Some st \<Longrightarrow>
   \<exists>self' st'. provision_loop e rid tot i rs (acc, self) = (acc @ loop_returned e i rs, self')
      \<and> provisioning_requests self' = (provisioning_requests self)(rid \<mapsto> st')
      \<and> resources st' = resources st @ loop_outcomes e i rs
      \<and> status st' = status st \<and> started_at st' = started_at st
      \<and> estimated_completion st' = estimated_completion st
      \<and> progress_writes self' =
          progress_writes self @ map (\<lambda>k. (rid, progress_at tot k)) [i..<i + length rs]"
proof (induction rs arbitrary: i acc self st)
  case Nil
  have "(provisioning_requests self)(rid \<mapsto> st) = provisioning_requests self"
    using Nil by (simp add: fun_upd_idem)
  then show ?case by (intro exI [of _ self] exI [of _ st]) simp
next
  case (Cons r rs)
  let ?p = "provision_resource (format_enum e) (uuid4_hex e i) r"
  let ?self1 = "set_progress rid (progress_at tot i) self"
  let ?self2 = "append_outcome rid (outcome_at e i r) ?self1"
  let ?st2 = "st\<lparr>progress := progress_at tot i,
                  resources := resources st @ [outcome_at e i r]\<rparr>"
  have m2: "provisioning_requests ?self2 = (provisioning_requests self)(rid \<mapsto> ?st2)"
    using Cons.prems by (simp add: set_progress_def append_outcome_def update_request_def)
  have w2: "progress_writes ?self2 = progress_writes self @ [(rid, progress_at tot i)]"
    using Cons.prems by (simp add: set_progress_def append_outcome_def update_request_def)
  have some2: "provisioning_requests ?self2 rid = Some ?st2"
    using m2 by simp
  have step: "provision_loop e rid tot i (r # rs) (acc, self) =
      provision_loop e rid tot (Suc i) rs
        (acc @ (case ?p of Inr p \<Rightarrow> [p] | Inl err \<Rightarrow> []), ?self2)"
    by (cases ?p) (simp_all add: outcome_at_def progress_at_def)
  from Cons.IH [OF some2, of "Suc i" "acc @ (case ?p of Inr p \<Rightarrow> [p] | Inl err \<Rightarrow> [])"]
  obtain self' st' where
    l: "provision_loop e rid tot (Suc i) rs
          (acc @ (case ?p of Inr p \<Rightarrow> [p] | Inl err \<Rightarrow> []), ?self2) =
        ((acc @ (case ?p of Inr p \<Rightarrow> [p] | Inl err \<Rightarrow> [])) @ loop_returned e (Suc i) rs, self')"
    and m: "provisioning_requests self' = (provisioning_requests ?self2)(rid \<mapsto> st')"
    and r: "resources st' = resources ?st2 @ loop_outcomes e (Suc i) rs"
    and s: "status st' = status ?st2" "started_at st' = started_at ?st2"
           "estimated_completion st' = estimated_completion ?st2"
    and w: "progress_writes self' =
            progress_writes ?self2 @ map (\<lambda>k. (rid, progress_at tot k)) [Suc i..<Suc i + length rs]"
    by blast
  have ret: "(acc @ (case ?p of Inr p \<Rightarrow> [p] | Inl err \<Rightarrow> [])) @ loop_returned e (Suc i) rs
             = acc @ loop_returned e i (r # rs)"
    by (cases ?p) simp_all
  have m': "provisioning_requests self' = (provisioning_requests self)(rid \<mapsto> st')"
    using m m2 by simp
  have r': "resources st' = resources st @ loop_outcomes e i (r # rs)"
    using r by simp
  have w': "progress_writes self' =
      progress_writes self @ map (\<lambda>k. (rid, progress_at tot k)) [i..<i + length (r # rs)]"
  proof -
    have u: "[i..<i + length (r # rs)] = i # [Suc i..<Suc i + length rs]"
      by (simp add: upt_conv_Cons del: upt_Suc)
    have "progress_writes self' =
        (progress_writes self @ [(rid, progress_at tot i)])
          @ map (\<lambda>k. (rid, progress_at tot k)) [Suc i..<Suc i + length rs]"
      using w w2 by (simp only:)
    also have "\<dots> = progress_writes self
          @ map (\<lambda>k. (rid, progress_at tot k)) (i # [Suc i..<Suc i + length rs])"
      by (simp only: list.map append_assoc append_Cons append_Nil)
    finally show ?thesis by (simp only: u)
  qed
  show ?case
    using step l ret m' r' s w' by (intro exI [of _ self'] exI [of _ st']) simp
qed

lemma loop_outcomes_enumerate:
  "loop_outcomes e i rs = map (\<lambda>(k, r). outcome_at e k r) (enumerate i rs)"
  by (induction rs arbitrary: i) simp_all

lemma loop_returned_enumerate:
  "loop_returned e i rs = concat (map (\<lambda>(k, r). returned_at e k r) (enumerate i rs))"
proof (induction rs arbitrary: i)
  case Nil
  show ?case by simp
next
  case (Cons r rs)
  show ?case
    by (cases "provision_resource (format_enum e) (uuid4_hex e i) r") (simp_all add: returned_at_def Cons.IH)
qed

lemma init_request_entry:
  "provisioning_requests (init_request e rid self) rid =
     Some (case provisioning_requests self rid of None \<Rightarrow> new_request e | Some st \<Rightarrow> st)"
  by (cases "provisioning_requests self rid") (simp_all add: init_request_def)

lemma init_request_map:
  "provisioning_requests (init_request e rid self) =
     (provisioning_requests self)
       (rid \<mapsto> (case provisioning_requests self rid of None \<Rightarrow> new_request e | Some st \<Rightarrow> st))"
  by (cases "provisioning_requests self rid") (auto simp: init_request_def)

lemma init_request_writes:
  "progress_writes (init_request e rid self) =
     progress_writes self @ (if provisioning_requests self rid = None then [(rid, 0)] else [])"
  by (simp add: init_request_def)

lemma provision_resources_cycle:
  "sort_resources_by_dependencies (hash_order e) (recursion_limit e) rs = Inl err \<Longrightarrow>
   provision_resources e rid rs self = (Inl err, init_request e rid self)"
  by (simp add: provision_resources_def)

lemma provision_resources_ok:
  assumes srt: "sort_resources_by_dependencies (hash_order e) (recursion_limit e) rs = Inr srt"
  shows "\<exists>self' st'. provision_resources e rid rs self = (Inr (loop_returned e 0 srt), self')
      \<and> provisioning_requests self' = (provisioning_requests self)(rid \<mapsto> st')
      \<and> status st' = ''completed'' \<and> progress st' = 100
      \<and> resources st' = prior_outcomes self rid @ loop_outcomes e 0 srt
      \<and> progress_writes self' =
          progress_writes self
            @ (if provisioning_requests self rid = None then [(rid, 0)] else [])
            @ map (\<lambda>k. (rid, progress_at (length srt) k)) [0..<length srt]
            @ [(rid, 100)]"
proof -
  let ?self1 = "init_request e rid self"
  let ?st1 = "case provisioning_requests self rid of None \<Rightarrow> new_request e | Some st \<Rightarrow> st"
  have e1: "provisioning_requests ?self1 rid = Some ?st1"
    by (rule init_request_entry)
  from provision_loop_spec [OF e1, of e "length srt" 0 srt "[]"]
  obtain self2 st2 where
    l: "provision_loop e rid (length srt) 0 srt ([], ?self1) = (loop_returned e 0 srt, self2)"
    and m: "provisioning_requests self2 = (provisioning_requests ?self1)(rid \<mapsto> st2)"
    and r: "resources st2 = resources ?st1 @ loop_outcomes e 0 srt"
    and w: "progress_writes self2 =
            progress_writes ?self1 @ map (\<lambda>k. (rid, progress_at (length srt) k)) [0..<0 + length srt]"
    by auto
  let ?st' = "st2\<lparr>status := ''completed'', progress := 100\<rparr>"
  let ?self' = "set_progress rid 100 (set_status rid ''completed'' self2)"
  have res: "provision_resources e rid rs self = (Inr (loop_returned e 0 srt), ?self')"
    using srt l
    by (simp add: provision_resources_def progress_at_def [abs_def, symmetric]
             del: provision_loop.simps)
  have m': "provisioning_requests ?self' = (provisioning_requests self)(rid \<mapsto> ?st')"
    using m by (simp add: set_progress_def set_status_def update_request_def init_request_map)
  have r0: "resources ?st1 = prior_outcomes self rid"
    by (cases "provisioning_requests self rid") (simp_all add: prior_outcomes_def new_request_def)
  have r': "resources ?st' = prior_outcomes self rid @ loop_outcomes e 0 srt"
    using r r0 by simp
  have w': "progress_writes ?self' =
          progress_writes self
            @ (if provisioning_requests self rid = None then [(rid, 0)] else [])
            @ map (\<lambda>k. (rid, progress_at (length srt) k)) [0..<length srt]
            @ [(rid, 100)]"
    using w m by (simp add: set_progress_def set_status_def update_request_def init_request_writes)
  show ?thesis
    using res m' r' w' by (intro exI [of _ ?self'] exI [of _ ?st']) simp
qed

lemmas sort_eval_defs = sort_resources_by_dependencies_def resource_map_of_def empty_graph_def
  set_add_def example_resource_def example_env_def

text \<open>
  Claim C1. The claim is that the ordering puts every resource after the resources it
  depends on, so that for A, B depending on A, C depending on B and D depending on C the
  result is A, B, C, D. The code appends a name to \<open>order\<close> after its dependencies, which
  is such an order, and then returns \<open>reversed(order)\<close>: on this batch the result is
  D, C, B, A, every resource before the one it depends on.
\<close>

theorem sort_chain_dependents_first:
  "map_sum id (map name) (sort_resources_by_dependencies (hash_order example_env) (recursion_limit example_env) chain_batch)
     = Inr [''D'', ''C'', ''B'', ''A'']"
  by (simp add: sort_eval_defs chain_batch_def)

text \<open>
  Claim C2. The claim is that a status query that follows a completed provisioning call
  for the same request identifier returns the state that the call wrote. Each handler
  builds its own \<open>ResourceProvisioner\<close>, whose dictionary starts empty: the provisioning
  call succeeds, and the status operation answers not-found for every identifier.
\<close>

theorem status_endpoint_never_finds_request:
  "(\<exists>resp. api_provision_resources example_env
              \<lparr>c_request_id = ''req-1'',
               confirmed_resources = [example_resource COMPUTE ''WebServer'' []],
               user_id = None, priority = None\<rparr> = Inr resp
           \<and> r_request_id resp = ''req-1'' \<and> r_status resp = ''success''
           \<and> map p_name (provisioned_resources resp) = [''WebServer''])
   \<and> (\<forall>request_id. \<exists>s. api_get_provisioning_status request_id = Inr s
           \<and> s_status s = ''not_found'' \<and> s_resources s = [])"
  by (simp add: api_provision_resources_def api_get_provisioning_status_def
        get_provisioning_status_def ResourceProvisioner_init_def provision_resources_def
        sort_eval_defs init_request_def new_request_def provision_resource_def
        provision_compute_instance_def set_progress_def set_status_def append_outcome_def
        update_request_def success_entry_def)

lemma sort_mixed:
  "sort_resources_by_dependencies (hash_order example_env) (recursion_limit example_env) mixed_batch =
     Inr [example_resource DATABASE ''WebsiteDB'' [], example_resource KUBERNETES ''Cluster'' [],
          example_resource COMPUTE ''WebServer'' []]"
  by (simp add: sort_eval_defs mixed_batch_def)

lemma cyclic_batch_cycle: "(''X'', ''X'') \<in> (in_batch_edges cyclic_batch)\<^sup>+"
proof -
  have "(''X'', ''Y'') \<in> in_batch_edges cyclic_batch"
    by (simp add: in_batch_edges_def cyclic_batch_def example_resource_def deps_of_def)
  moreover have "(''Y'', ''X'') \<in> in_batch_edges cyclic_batch"
    by (simp add: in_batch_edges_def cyclic_batch_def example_resource_def deps_of_def)
  ultimately show ?thesis by (rule trancl_into_trancl [OF r_into_trancl])
qed

text \<open>
  The bound on the size of the batch is needed: where the stack leaves room for two
  nested calls of \<open>visit\<close> only, a ring of three resources exhausts it before the cycle
  closes, and the error is the interpreter's, not the cycle error.
\<close>

lemma ring_beyond_recursion_limit:
  "sort_resources_by_dependencies (\<lambda>xs. xs) 2
     [example_resource COMPUTE ''P'' [''Q''], example_resource COMPUTE ''Q'' [''R''],
      example_resource COMPUTE ''R'' [''P'']]
   = Inl (RecursionError recursion_message)"
  by (simp add: sort_eval_defs)

text \<open>
  Claim C4, as stated, fails on the code: with X depending on Y and Y on X and a request
  identifier that is not stored yet, the call raises the cycle error, and the entry it
  created before sorting stays stored with the status \<open>in_progress\<close>.
\<close>

theorem cyclic_batch_left_in_progress:
  "fst (provision_resources example_env ''req-1'' cyclic_batch ResourceProvisioner_init)
     = Inl (ValueError ''Circular dependency detected for X'')
   \<and> provisioning_requests ResourceProvisioner_init ''req-1'' = None
   \<and> map_option status
        (provisioning_requests
           (snd (provision_resources example_env ''req-1'' cyclic_batch ResourceProvisioner_init))
           ''req-1'') = Some ''in_progress''"
  by (simp add: provision_resources_def sort_eval_defs cyclic_batch_def init_request_def
        new_request_def ResourceProvisioner_init_def)

text \<open>
  Claim C4, amended. For every batch whose in-batch dependency edges contain a cycle and
  which has fewer distinct names than the interpreter's recursion limit allows nested
  calls of \<open>visit\<close> at the point of the sort, and for every iteration order of the
  dependency sets, the provisioning call fails with the error
  \<open>Circular dependency detected for m\<close> where \<open>m\<close> lies on a cycle; no resource is
  provisioned and no outcome is stored. If the request identifier was stored, the object
  is unchanged; if not, the only change is the new entry, with status \<open>in_progress\<close>,
  progress 0 and an empty list of outcomes. (A larger batch can exhaust the stack first:
  see \<open>ring_beyond_recursion_limit\<close>.)
\<close>

theorem cyclic_batch_aborts:
  assumes perm: "\<forall>xs. set (hash_order e xs) = set xs"
    and cyc: "(n, n) \<in> (in_batch_edges rs)\<^sup>+"
    and lim: "card (name ` set rs) < recursion_limit e"
  shows "\<exists>m. fst (provision_resources e request_id rs self)
               = Inl (ValueError (''Circular dependency detected for '' @ m))
           \<and> (m, m) \<in> (in_batch_edges rs)\<^sup>+
           \<and> (provisioning_requests self request_id \<noteq> None
                \<longrightarrow> snd (provision_resources e request_id rs self) = self)
           \<and> (provisioning_requests self request_id = None
                \<longrightarrow> provisioning_requests (snd (provision_resources e request_id rs self))
                      = (provisioning_requests self)
                          (request_id \<mapsto>
                             \<lparr>status = ''in_progress'', started_at = clock_now e,
                              estimated_completion = clock_plus_15 e, resources = [],
                              progress = 0\<rparr>))"
proof -
  from sort_cyclic [OF perm cyc lim] obtain m where
    s: "sort_resources_by_dependencies (hash_order e) (recursion_limit e) rs
          = Inl (ValueError (''Circular dependency detected for '' @ m))"
    and c: "(m, m) \<in> (in_batch_edges rs)\<^sup>+"
    by blast
  have r: "provision_resources e request_id rs self
             = (Inl (ValueError (''Circular dependency detected for '' @ m)),
                init_request e request_id self)"
    using s by (rule provision_resources_cycle)
  have a: "provisioning_requests self request_id \<noteq> None
             \<Longrightarrow> init_request e request_id self = self"
    by (auto simp: init_request_def)
  have b: "provisioning_requests self request_id = None
             \<Longrightarrow> provisioning_requests (init_request e request_id self)
                  = (provisioning_requests self)(request_id \<mapsto> new_request e)"
    by (simp add: init_request_def)
  show ?thesis
    using r c a b by (intro exI [of _ m]) (simp add: new_request_def)
qed

theorem cyclic_batch_aborts_witness:
  "(\<forall>xs. set (hash_order example_env xs) = set xs)
   \<and> (''X'', ''X'') \<in> (in_batch_edges cyclic_batch)\<^sup>+
   \<and> card (name ` set cyclic_batch) < recursion_limit example_env
   \<and> (\<exists>m. fst (provision_resources example_env ''req-1'' cyclic_batch ResourceProvisioner_init)
               = Inl (ValueError (''Circular dependency detected for '' @ m))
           \<and> (m, m) \<in> (in_batch_edges cyclic_batch)\<^sup>+
           \<and> provisioning_requests
                (snd (provision_resources example_env ''req-1'' cyclic_batch
                        ResourceProvisioner_init))
               = Map.empty(''req-1'' \<mapsto>
                             \<lparr>status = ''in_progress'', started_at = clock_now example_env,
                              estimated_completion = clock_plus_15 example_env, resources = [],
                              progress = 0\<rparr>))"
proof -
  have p: "\<forall>xs. set (hash_order example_env xs) = set xs"
    by (simp add: example_env_def)
  have l: "card (name ` set cyclic_batch) < recursion_limit example_env"
    by (simp add: cyclic_batch_def example_resource_def example_env_def)
  from cyclic_batch_aborts [OF p cyclic_batch_cycle l, of "''req-1''" ResourceProvisioner_init]
  show ?thesis
    using p cyclic_batch_cycle l by (simp add: ResourceProvisioner_init_def)
qed

lemma provision_resource_cases:
  "provision_resource fmt hex r =
     (if resource_type r = KUBERNETES
      then Inl (ValueError (unsupported_message fmt KUBERNETES))
      else Inr \<lparr>p_resource_type = resource_type r, p_name = name r,
                p_ocid = ''ocid1.'' @ ResourceType_value (resource_type r) @ ''.oc1..aaaaaaaa'' @ hex,
                p_status = ACTIVE\<rparr>)"
  by (cases "resource_type r")
     (simp_all add: provision_resource_def provision_compute_instance_def provision_network_def
        provision_database_def provision_storage_def provision_load_balancer_def)

lemma outcome_at_failed:
  "provision_resource (format_enum e) (uuid4_hex e i) r = Inl err \<Longrightarrow>
   outcome_at e i r = \<lparr>o_name = name r, o_type = resource_type r, o_status = ''failed'',
                        o_ocid = None, o_error = Some (error_str err)\<rparr>"
  by (simp add: outcome_at_def failure_entry_def)

lemma outcome_at_active:
  "provision_resource (format_enum e) (uuid4_hex e i) r = Inr p \<Longrightarrow>
   outcome_at e i r = \<lparr>o_name = name r, o_type = resource_type r, o_status = ''active'',
                        o_ocid = Some (p_ocid p), o_error = None\<rparr>"
  by (auto simp: outcome_at_def success_entry_def provision_resource_cases split: if_splits)

lemma stored_after_provisioning:
  assumes "sort_resources_by_dependencies (hash_order e) (recursion_limit e) rs = Inr srt"
  shows "\<exists>st. provisioning_requests (snd (provision_resources e request_id rs self)) request_id
                 = Some st
            \<and> status st = ''completed'' \<and> progress st = 100
            \<and> resources st = prior_outcomes self request_id
                               @ map (\<lambda>(i, r). outcome_at e i r) (enumerate 0 srt)"
proof -
  from provision_resources_ok [OF assms, of request_id self] obtain self' st' where
    r: "provision_resources e request_id rs self = (Inr (loop_returned e 0 srt), self')"
    and m: "provisioning_requests self' = (provisioning_requests self)(request_id \<mapsto> st')"
    and s: "status st' = ''completed''" "progress st' = 100"
    and o: "resources st' = prior_outcomes self request_id @ loop_outcomes e 0 srt"
    by blast
  have "provisioning_requests (snd (provision_resources e request_id rs self)) request_id = Some st'"
    using r m by simp
  then show ?thesis
    using s o by (intro exI [of _ st']) (simp add: loop_outcomes_enumerate)
qed

text \<open>
  Claim C5. Whenever the batch can be ordered, the call leaves the request with status
  \<open>completed\<close> and progress exactly 100, and with one new outcome for every resource of
  the ordered batch, in order, after the outcomes stored before: for a resource whose
  provisioning raised an error the outcome has status \<open>failed\<close> and the text of the error,
  for the others it has status \<open>active\<close>; an error does not stop the loop. In the code the
  handlers of the five supported kinds never raise, so the error is the one for an
  unsupported kind.
\<close>

theorem failed_resource_recorded_batch_completes:
  assumes "sort_resources_by_dependencies (hash_order e) (recursion_limit e) rs = Inr srt"
  shows "\<exists>st. provisioning_requests (snd (provision_resources e request_id rs self)) request_id
                 = Some st
            \<and> status st = ''completed'' \<and> progress st = 100
            \<and> resources st = prior_outcomes self request_id
                               @ map (\<lambda>(i, r). outcome_at e i r) (enumerate 0 srt)
            \<and> (\<forall>(i, r) \<in> set (enumerate 0 srt).
                  (\<forall>err. provision_resource (format_enum e) (uuid4_hex e i) r = Inl err \<longrightarrow>
                     outcome_at e i r =
                       \<lparr>o_name = name r, o_type = resource_type r, o_status = ''failed'',
                        o_ocid = None, o_error = Some (error_str err)\<rparr>)
                \<and> (\<forall>p. provision_resource (format_enum e) (uuid4_hex e i) r = Inr p \<longrightarrow>
                     outcome_at e i r =
                       \<lparr>o_name = name r, o_type = resource_type r, o_status = ''active'',
                        o_ocid = Some (p_ocid p), o_error = None\<rparr>))"
proof -
  from stored_after_provisioning [OF assms, of request_id self] obtain st where
    "provisioning_requests (snd (provision_resources e request_id rs self)) request_id = Some st"
    "status st = ''completed''" "progress st = 100"
    "resources st = prior_outcomes self request_id
                     @ map (\<lambda>(i, r). outcome_at e i r) (enumerate 0 srt)"
    by blast
  then show ?thesis
    by (intro exI [of _ st]) (auto simp: outcome_at_failed outcome_at_active)
qed

theorem failed_resource_recorded_batch_completes_witness:
  "sort_resources_by_dependencies (hash_order example_env) (recursion_limit example_env) mixed_batch =
     Inr [example_resource DATABASE ''WebsiteDB'' [], example_resource KUBERNETES ''Cluster'' [],
          example_resource COMPUTE ''WebServer'' []]
   \<and> (\<exists>st. provisioning_requests
              (snd (provision_resources example_env ''req-1'' mixed_batch ResourceProvisioner_init))
              ''req-1'' = Some st
          \<and> status st = ''completed'' \<and> progress st = 100
          \<and> map o_name (resources st) = [''WebsiteDB'', ''Cluster'', ''WebServer'']
          \<and> map o_status (resources st) = [''active'', ''failed'', ''active'']
          \<and> map o_error (resources st)
               = [None, Some ''Unsupported resource type: ResourceType.KUBERNETES'', None])"
proof -
  from failed_resource_recorded_batch_completes
         [OF sort_mixed, of "''req-1''" ResourceProvisioner_init]
  obtain st where
    a: "provisioning_requests
          (snd (provision_resources example_env ''req-1'' mixed_batch ResourceProvisioner_init))
          ''req-1'' = Some st"
    and b: "status st = ''completed''" "progress st = 100"
    and c: "resources st = prior_outcomes ResourceProvisioner_init ''req-1''
               @ map (\<lambda>(i, r). outcome_at example_env i r)
                   (enumerate 0 [example_resource DATABASE ''WebsiteDB'' [],
                                 example_resource KUBERNETES ''Cluster'' [],
                                 example_resource COMPUTE ''WebServer'' []])"
    by blast
  have d: "map o_name (resources st) = [''WebsiteDB'', ''Cluster'', ''WebServer'']"
    unfolding c
    by (simp add: prior_outcomes_def ResourceProvisioner_init_def outcome_at_def
          provision_resource_cases example_resource_def success_entry_def failure_entry_def)
  have e: "map o_status (resources st) = [''active'', ''failed'', ''active'']"
    unfolding c
    by (simp add: prior_outcomes_def ResourceProvisioner_init_def outcome_at_def
          provision_resource_cases example_resource_def success_entry_def failure_entry_def)
  have f: "map o_error (resources st)
               = [None, Some ''Unsupported resource type: ResourceType.KUBERNETES'', None]"
    unfolding c
    by (simp add: prior_outcomes_def ResourceProvisioner_init_def outcome_at_def
          provision_resource_cases example_resource_def success_entry_def failure_entry_def
          unsupported_message_def example_env_def format_enum_311_def)
  have g: "\<exists>st. provisioning_requests
              (snd (provision_resources example_env ''req-1'' mixed_batch ResourceProvisioner_init))
              ''req-1'' = Some st
          \<and> status st = ''completed'' \<and> progress st = 100
          \<and> map o_name (resources st) = [''WebsiteDB'', ''Cluster'', ''WebServer'']
          \<and> map o_status (resources st) = [''active'', ''failed'', ''active'']
          \<and> map o_error (resources st)
               = [None, Some ''Unsupported resource type: ResourceType.KUBERNETES'', None]"
    by (rule exI [of _ st]) (simp only: a b d e f simp_thms)
  show ?thesis
    by (rule conjI [OF sort_mixed g])
qed

lemma loop_returned_names:
  "map p_name (loop_returned e i rs) = map name (filter supported rs)"
  by (induction rs arbitrary: i) (simp_all add: provision_resource_cases supported_def)

lemma loop_returned_length: "length (loop_returned e i rs) \<le> length rs"
proof (induction rs arbitrary: i)
  case Nil
  show ?case by simp
next
  case (Cons r rs)
  show ?case
    using Cons.IH [of "Suc i"]
    by (cases "provision_resource (format_enum e) (uuid4_hex e i) r") auto
qed

lemma progress_at_mono: "i \<le> j \<Longrightarrow> progress_at n i \<le> progress_at n j"
  by (simp add: progress_at_def divide_right_mono mult_right_mono)

lemma progress_at_nonneg: "0 \<le> progress_at n i"
  by (simp add: progress_at_def)

lemma progress_at_le_100: "i < n \<Longrightarrow> progress_at n i \<le> 100"
proof -
  assume a: "i < n"
  then have "(of_nat i :: rat) / of_nat n \<le> 1" by simp
  then have "(of_nat i :: rat) / of_nat n * 100 \<le> 1 * 100"
    by (rule mult_right_mono) simp
  then show ?thesis by (simp add: progress_at_def)
qed

lemma sorted_progress_at: "sorted (map (progress_at n) [i..<j])"
  by (simp add: sorted_map sorted_wrt_iff_nth_less progress_at_mono)

lemma sorted_progress_values: "sorted (progress_values self rid n)"
  by (auto simp: progress_values_def sorted_append sorted_progress_at progress_at_nonneg
        progress_at_le_100)

lemma last_progress_values: "last (progress_values self rid n) = 100"
  by (simp add: progress_values_def)

lemma progress_writes_ok:
  assumes "sort_resources_by_dependencies (hash_order e) (recursion_limit e) rs = Inr srt"
  shows "progress_writes (snd (provision_resources e rid rs self)) =
           progress_writes self @ map (Pair rid) (progress_values self rid (length srt))"
proof -
  from provision_resources_ok [OF assms, of rid self] obtain self' where
    r: "provision_resources e rid rs self = (Inr (loop_returned e 0 srt), self')"
    and w: "progress_writes self' =
          progress_writes self
            @ (if provisioning_requests self rid = None then [(rid, 0)] else [])
            @ map (\<lambda>k. (rid, progress_at (length srt) k)) [0..<length srt]
            @ [(rid, 100)]"
    by blast
  have "progress_writes (snd (provision_resources e rid rs self)) = progress_writes self'"
    using r by simp
  then show ?thesis
    unfolding w by (simp add: progress_values_def comp_def)
qed

lemma progress_writes_error:
  assumes "sort_resources_by_dependencies (hash_order e) (recursion_limit e) rs = Inl err"
  shows "progress_writes (snd (provision_resources e rid rs self)) =
           progress_writes self
             @ map (Pair rid) (if provisioning_requests self rid = None then [0] else [])"
  using provision_resources_cycle [OF assms, of rid self] by (simp add: init_request_writes)

text \<open>
  Claim C10. Whenever the batch can be ordered, the call returns the provisioned
  resources of the ordered batch in order, one for every resource whose provisioning
  succeeded and none for a resource whose provisioning raised an error; the names returned
  are those of the resources of a supported kind. The stored state has an outcome for
  every resource, the failed ones included, so the list returned is never longer than the
  batch and is shorter when a resource failed.
\<close>

theorem returned_list_omits_failures:
  assumes "sort_resources_by_dependencies (hash_order e) (recursion_limit e) rs = Inr srt"
  shows "\<exists>returned st.
            fst (provision_resources e request_id rs self) = Inr returned
          \<and> returned = concat (map (\<lambda>(i, r).
                           case provision_resource (format_enum e) (uuid4_hex e i) r of
                             Inr p \<Rightarrow> [p]
                           | Inl err \<Rightarrow> []) (enumerate 0 srt))
          \<and> map p_name returned = map name (filter supported srt)
          \<and> length returned \<le> length srt
          \<and> provisioning_requests (snd (provision_resources e request_id rs self)) request_id
               = Some st
          \<and> resources st = prior_outcomes self request_id
                              @ map (\<lambda>(i, r). outcome_at e i r) (enumerate 0 srt)"
proof -
  from provision_resources_ok [OF assms, of request_id self] obtain self' st' where
    r: "provision_resources e request_id rs self = (Inr (loop_returned e 0 srt), self')"
    and m: "provisioning_requests self' = (provisioning_requests self)(request_id \<mapsto> st')"
    and o: "resources st' = prior_outcomes self request_id @ loop_outcomes e 0 srt"
    by blast
  have a: "fst (provision_resources e request_id rs self) = Inr (loop_returned e 0 srt)"
    using r by simp
  have b: "loop_returned e 0 srt = concat (map (\<lambda>(i, r).
                           case provision_resource (format_enum e) (uuid4_hex e i) r of
                             Inr p \<Rightarrow> [p]
                           | Inl err \<Rightarrow> []) (enumerate 0 srt))"
    by (simp add: loop_returned_enumerate returned_at_def [abs_def])
  have c: "provisioning_requests (snd (provision_resources e request_id rs self)) request_id
             = Some st'"
    using r m by simp
  have d: "resources st' = prior_outcomes self request_id
                              @ map (\<lambda>(i, r). outcome_at e i r) (enumerate 0 srt)"
    using o by (simp add: loop_outcomes_enumerate)
  show ?thesis
    apply (rule exI [of _ "loop_returned e 0 srt"])
    apply (rule exI [of _ st'])
    apply (intro conjI)
         apply (rule a)
        apply (rule b)
       apply (rule loop_returned_names)
      apply (rule loop_returned_length)
     apply (rule c)
    apply (rule d)
    done
qed

theorem returned_list_omits_failures_witness:
  "sort_resources_by_dependencies (hash_order example_env) (recursion_limit example_env) mixed_batch =
     Inr [example_resource DATABASE ''WebsiteDB'' [], example_resource KUBERNETES ''Cluster'' [],
          example_resource COMPUTE ''WebServer'' []]
   \<and> (\<exists>returned st.
          fst (provision_resources example_env ''req-1'' mixed_batch ResourceProvisioner_init)
            = Inr returned
        \<and> map p_name returned = [''WebsiteDB'', ''WebServer'']
        \<and> length returned < length mixed_batch
        \<and> provisioning_requests
              (snd (provision_resources example_env ''req-1'' mixed_batch ResourceProvisioner_init))
              ''req-1'' = Some st
        \<and> map o_name (resources st) = [''WebsiteDB'', ''Cluster'', ''WebServer'']
        \<and> map o_status (resources st) = [''active'', ''failed'', ''active''])"
proof -
  let ?srt = "[example_resource DATABASE ''WebsiteDB'' [], example_resource KUBERNETES ''Cluster'' [],
               example_resource COMPUTE ''WebServer'' []]"
  from returned_list_omits_failures
         [OF sort_mixed, of "''req-1''" ResourceProvisioner_init]
  obtain returned st where
    a: "fst (provision_resources example_env ''req-1'' mixed_batch ResourceProvisioner_init)
          = Inr returned"
    and b: "map p_name returned = map name (filter supported ?srt)"
    and c: "provisioning_requests
              (snd (provision_resources example_env ''req-1'' mixed_batch ResourceProvisioner_init))
              ''req-1'' = Some st"
    and d: "resources st = prior_outcomes ResourceProvisioner_init ''req-1''
               @ map (\<lambda>(i, r). outcome_at example_env i r) (enumerate 0 ?srt)"
    by blast
  have b': "map p_name returned = [''WebsiteDB'', ''WebServer'']"
    unfolding b by (simp add: supported_def example_resource_def)
  have "length (map p_name returned) = 2" unfolding b' by simp
  then have l: "length returned < length mixed_batch"
    by (simp add: mixed_batch_def)
  have n: "map o_name (resources st) = [''WebsiteDB'', ''Cluster'', ''WebServer'']"
    unfolding d
    by (simp add: prior_outcomes_def ResourceProvisioner_init_def outcome_at_def
          provision_resource_cases example_resource_def success_entry_def failure_entry_def)
  have s: "map o_status (resources st) = [''active'', ''failed'', ''active'']"
    unfolding d
    by (simp add: prior_outcomes_def ResourceProvisioner_init_def outcome_at_def
          provision_resource_cases example_resource_def success_entry_def failure_entry_def)
  have g: "\<exists>returned st.
          fst (provision_resources example_env ''req-1'' mixed_batch ResourceProvisioner_init)
            = Inr returned
        \<and> map p_name returned = [''WebsiteDB'', ''WebServer'']
        \<and> length returned < length mixed_batch
        \<and> provisioning_requests
              (snd (provision_resources example_env ''req-1'' mixed_batch ResourceProvisioner_init))
              ''req-1'' = Some st
        \<and> map o_name (resources st) = [''WebsiteDB'', ''Cluster'', ''WebServer'']
        \<and> map o_status (resources st) = [''active'', ''failed'', ''active'']"
    apply (rule exI [of _ returned])
    apply (rule exI [of _ st])
    apply (intro conjI)
         apply (rule a)
        apply (rule b')
       apply (rule l)
      apply (rule c)
     apply (rule n)
    apply (rule s)
    done
  show ?thesis
    by (rule conjI [OF sort_mixed g])
qed

text \<open>
  Claim C7. The values that one call writes to the progress of its request, in the order
  of the writes, form a non-decreasing sequence: 0 when the call creates the entry, then
  \<open>i / total * 100\<close> before the resource at position \<open>i\<close>, then 100. This holds whether the
  batch can be ordered or not. When it can, so that the call returns, the last value
  written and the progress stored are exactly 100, whatever the resources that failed.
  (The sequence is that of the writes of the call: for a request identifier stored by an
  earlier call the first write of the loop replaces the 100 left by that call.)
\<close>

theorem progress_monotone_reaches_100:
  "\<exists>ws. progress_writes (snd (provision_resources e request_id rs self))
            = progress_writes self @ map (Pair request_id) ws
        \<and> sorted ws
        \<and> (\<forall>srt. sort_resources_by_dependencies (hash_order e) (recursion_limit e) rs = Inr srt
              \<longrightarrow> ws \<noteq> [] \<and> last ws = 100
                \<and> map_option progress
                     (provisioning_requests (snd (provision_resources e request_id rs self))
                        request_id) = Some 100)"
proof (cases "sort_resources_by_dependencies (hash_order e) (recursion_limit e) rs")
  case (Inl err)
  let ?ws = "if provisioning_requests self request_id = None then [0::rat] else []"
  have a: "progress_writes (snd (provision_resources e request_id rs self))
             = progress_writes self @ map (Pair request_id) ?ws"
    by (rule progress_writes_error [OF Inl])
  have b: "sorted ?ws" by simp
  show ?thesis
    using a b Inl by (intro exI [of _ ?ws]) simp
next
  case (Inr srt)
  let ?ws = "progress_values self request_id (length srt)"
  have a: "progress_writes (snd (provision_resources e request_id rs self))
             = progress_writes self @ map (Pair request_id) ?ws"
    by (rule progress_writes_ok [OF Inr])
  from stored_after_provisioning [OF Inr, of request_id self] obtain st where
    "provisioning_requests (snd (provision_resources e request_id rs self)) request_id = Some st"
    and "progress st = 100"
    by blast
  then have c: "map_option progress
                  (provisioning_requests (snd (provision_resources e request_id rs self))
                     request_id) = Some 100"
    by simp
  have d: "?ws \<noteq> []" by (simp add: progress_values_def)
  show ?thesis
    using a c d Inr sorted_progress_values [of self request_id "length srt"]
      last_progress_values [of self request_id "length srt"]
    by (intro exI [of _ ?ws]) simp
qed

theorem progress_monotone_reaches_100_witness:
  "(\<exists>srt. sort_resources_by_dependencies (hash_order example_env) (recursion_limit example_env)
            mixed_batch = Inr srt)
   \<and> progress_writes
        (snd (provision_resources example_env ''req-1'' mixed_batch ResourceProvisioner_init))
       = map (Pair ''req-1'') [0, 0, 100 / 3, 200 / 3, 100]
   \<and> map_option progress
        (provisioning_requests
           (snd (provision_resources example_env ''req-1'' mixed_batch ResourceProvisioner_init))
           ''req-1'') = Some 100
   \<and> (\<exists>ws. progress_writes
               (snd (provision_resources example_env ''req-1'' mixed_batch ResourceProvisioner_init))
             = map (Pair ''req-1'') ws
          \<and> sorted ws \<and> ws \<noteq> [] \<and> last ws = 100)"
proof -
  have w: "progress_writes
        (snd (provision_resources example_env ''req-1'' mixed_batch ResourceProvisioner_init))
       = map (Pair ''req-1'') [0, 0, 100 / 3, 200 / 3, 100]"
    using progress_writes_ok [OF sort_mixed, of "''req-1''" ResourceProvisioner_init]
    by (simp add: progress_values_def ResourceProvisioner_init_def progress_at_def upt_rec)
  from progress_monotone_reaches_100 [of example_env "''req-1''" mixed_batch ResourceProvisioner_init]
  obtain ws where
    a: "progress_writes
          (snd (provision_resources example_env ''req-1'' mixed_batch ResourceProvisioner_init))
        = progress_writes ResourceProvisioner_init @ map (Pair ''req-1'') ws"
    and b: "sorted ws"
    and c: "\<forall>srt. sort_resources_by_dependencies (hash_order example_env)
                    (recursion_limit example_env) mixed_batch = Inr srt
              \<longrightarrow> ws \<noteq> [] \<and> last ws = 100
                \<and> map_option progress
                     (provisioning_requests
                        (snd (provision_resources example_env ''req-1'' mixed_batch
                                ResourceProvisioner_init))
                        ''req-1'') = Some 100"
    by blast
  have c': "ws \<noteq> [] \<and> last ws = 100
                \<and> map_option progress
                     (provisioning_requests
                        (snd (provision_resources example_env ''req-1'' mixed_batch
                                ResourceProvisioner_init))
                        ''req-1'') = Some 100"
    using c sort_mixed by blast
  have a': "progress_writes
          (snd (provision_resources example_env ''req-1'' mixed_batch ResourceProvisioner_init))
        = map (Pair ''req-1'') ws"
    using a by (simp add: ResourceProvisioner_init_def)
  have s: "\<exists>srt. sort_resources_by_dependencies (hash_order example_env)
                   (recursion_limit example_env) mixed_batch = Inr srt"
    using sort_mixed by (rule exI)
  have g: "\<exists>ws. progress_writes
               (snd (provision_resources example_env ''req-1'' mixed_batch ResourceProvisioner_init))
             = map (Pair ''req-1'') ws
          \<and> sorted ws \<and> ws \<noteq> [] \<and> last ws = 100"
    using a' b c' by (intro exI [of _ ws]) (simp only: simp_thms)
  show ?thesis
    using s w c' g by (simp only: simp_thms)
qed

text \<open>
  Claim C3, as stated, fails on the code: the entry of a request is created only when its
  identifier is not stored yet, and the loop appends to the list it finds. After two calls
  with the same identifier, each for the one resource WebServer, the stored list has two
  outcomes, one from each call.
\<close>

theorem second_call_keeps_first_outcomes:
  "map_option (map o_name \<circ> resources)
     (provisioning_requests
        (snd (provision_resources example_env ''req-1'' [example_resource COMPUTE ''WebServer'' []]
           (snd (provision_resources example_env ''req-1''
                   [example_resource COMPUTE ''WebServer'' []] ResourceProvisioner_init))))
        ''req-1'')
   = Some [''WebServer'', ''WebServer'']"
  by (simp add: provision_resources_def sort_eval_defs init_request_def new_request_def
        ResourceProvisioner_init_def provision_resource_def provision_compute_instance_def
        set_progress_def set_status_def append_outcome_def update_request_def success_entry_def)

text \<open>
  Claim C3, amended. Calling provision twice with the same request identifier re-runs
  provisioning and appends: whenever both batches can be ordered, the outcomes stored
  after the second call are the outcomes stored before the first call, then those of the
  first call, then those of the second call, each in the order of its sorted batch; the
  status is \<open>completed\<close> and the progress 100.
\<close>

theorem second_call_appends_outcomes:
  assumes "sort_resources_by_dependencies (hash_order e1) (recursion_limit e1) rs1 = Inr srt1"
    and "sort_resources_by_dependencies (hash_order e2) (recursion_limit e2) rs2 = Inr srt2"
  shows "\<exists>st. provisioning_requests
                 (snd (provision_resources e2 request_id rs2
                         (snd (provision_resources e1 request_id rs1 self)))) request_id
               = Some st
            \<and> status st = ''completed'' \<and> progress st = 100
            \<and> resources st = prior_outcomes self request_id
                                @ map (\<lambda>(i, r). outcome_at e1 i r) (enumerate 0 srt1)
                                @ map (\<lambda>(i, r). outcome_at e2 i r) (enumerate 0 srt2)"
proof -
  let ?self1 = "snd (provision_resources e1 request_id rs1 self)"
  from stored_after_provisioning [OF assms(1), of request_id self] obtain st1 where
    a1: "provisioning_requests ?self1 request_id = Some st1"
    and r1: "resources st1 = prior_outcomes self request_id
                               @ map (\<lambda>(i, r). outcome_at e1 i r) (enumerate 0 srt1)"
    by blast
  from stored_after_provisioning [OF assms(2), of request_id ?self1] obtain st2 where
    a2: "provisioning_requests (snd (provision_resources e2 request_id rs2 ?self1)) request_id
           = Some st2"
    and s2: "status st2 = ''completed''" "progress st2 = 100"
    and r2: "resources st2 = prior_outcomes ?self1 request_id
                               @ map (\<lambda>(i, r). outcome_at e2 i r) (enumerate 0 srt2)"
    by blast
  have p: "prior_outcomes ?self1 request_id = resources st1"
    using a1 by (simp add: prior_outcomes_def)
  have r: "resources st2 = prior_outcomes self request_id
                                @ map (\<lambda>(i, r). outcome_at e1 i r) (enumerate 0 srt1)
                                @ map (\<lambda>(i, r). outcome_at e2 i r) (enumerate 0 srt2)"
    unfolding r2 p r1 by simp
  show ?thesis
    apply (rule exI [of _ st2])
    apply (intro conjI)
       apply (rule a2)
      apply (rule s2(1))
     apply (rule s2(2))
    apply (rule r)
    done
qed

lemma sort_single:
  "sort_resources_by_dependencies (hash_order example_env) (recursion_limit example_env)
     [example_resource COMPUTE ''WebServer'' []]
   = Inr [example_resource COMPUTE ''WebServer'' []]"
  by (simp add: sort_eval_defs)

theorem second_call_appends_outcomes_witness:
  "sort_resources_by_dependencies (hash_order example_env) (recursion_limit example_env)
     [example_resource COMPUTE ''WebServer'' []]
   = Inr [example_resource COMPUTE ''WebServer'' []]
   \<and> sort_resources_by_dependencies (hash_order example_env) (recursion_limit example_env)
       [example_resource DATABASE ''WebsiteDB'' []]
     = Inr [example_resource DATABASE ''WebsiteDB'' []]
   \<and> (\<exists>st. provisioning_requests
               (snd (provision_resources example_env ''req-1''
                       [example_resource DATABASE ''WebsiteDB'' []]
                       (snd (provision_resources example_env ''req-1''
                               [example_resource COMPUTE ''WebServer'' []]
                               ResourceProvisioner_init)))) ''req-1''
             = Some st
          \<and> status st = ''completed'' \<and> progress st = 100
          \<and> map o_name (resources st) = [''WebServer'', ''WebsiteDB''])"
proof -
  have s2: "sort_resources_by_dependencies (hash_order example_env) (recursion_limit example_env)
       [example_resource DATABASE ''WebsiteDB'' []]
     = Inr [example_resource DATABASE ''WebsiteDB'' []]"
    by (simp add: sort_eval_defs)
  from second_call_appends_outcomes [OF sort_single s2, of "''req-1''" ResourceProvisioner_init]
  obtain st where
    a: "provisioning_requests
               (snd (provision_resources example_env ''req-1''
                       [example_resource DATABASE ''WebsiteDB'' []]
                       (snd (provision_resources example_env ''req-1''
                               [example_resource COMPUTE ''WebServer'' []]
                               ResourceProvisioner_init)))) ''req-1''
             = Some st"
    and b: "status st = ''completed''" "progress st = 100"
    and c: "resources st = prior_outcomes ResourceProvisioner_init ''req-1''
              @ map (\<lambda>(i, r). outcome_at example_env i r)
                  (enumerate 0 [example_resource COMPUTE ''WebServer'' []])
              @ map (\<lambda>(i, r). outcome_at example_env i r)
                  (enumerate 0 [example_resource DATABASE ''WebsiteDB'' []])"
    by blast
  have n: "map o_name (resources st) = [''WebServer'', ''WebsiteDB'']"
    unfolding c
    by (simp add: prior_outcomes_def ResourceProvisioner_init_def outcome_at_def
          provision_resource_cases example_resource_def success_entry_def failure_entry_def)
  have g: "\<exists>st. provisioning_requests
               (snd (provision_resources example_env ''req-1''
                       [example_resource DATABASE ''WebsiteDB'' []]
                       (snd (provision_resources example_env ''req-1''
                               [example_resource COMPUTE ''WebServer'' []]
                               ResourceProvisioner_init)))) ''req-1''
             = Some st
          \<and> status st = ''completed'' \<and> progress st = 100
          \<and> map o_name (resources st) = [''WebServer'', ''WebsiteDB'']"
    by (rule exI [of _ st]) (simp only: a b n simp_thms)
  show ?thesis
    by (rule conjI [OF sort_single conjI [OF s2 g]])
qed

end
